theory Spec2Isabelle
  imports Main
begin

section \<open>Python values used by the summarizer\<close>

text \<open>
  A Python \<^verbatim>\<open>str\<close> is a sequence of Unicode code points; it is modelled as the list
  of its code points, so that \<open>length\<close> and whitespace are what Python sees.
  A Python \<^verbatim>\<open>int\<close> is unbounded and is modelled as \<open>int\<close>.
\<close>

type_synonym pystr = "nat list"

datatype py_error = ValueError | IndexError | CapabilityFailure nat

text \<open>
  The code points for which \<^verbatim>\<open>str.isspace\<close> holds; \<^verbatim>\<open>str.split()\<close> with no argument
  and \<^verbatim>\<open>str.strip()\<close> both use this set: U+0009..U+000D, U+001C..U+0020, U+0085, U+00A0,
  U+1680, U+2000..U+200A, U+2028, U+2029, U+202F, U+205F and U+3000.
\<close>

definition isspace :: "nat \<Rightarrow> bool" where
  "isspace c =
     ((9 \<le> c \<and> c \<le> 13) \<or> (28 \<le> c \<and> c \<le> 32) \<or> c = 133 \<or> c = 160 \<or> c = 5760 \<or>
      (8192 \<le> c \<and> c \<le> 8202) \<or> c = 8232 \<or> c = 8233 \<or> c = 8239 \<or> c = 8287 \<or> c = 12288)"

text \<open>The literal \<^verbatim>\<open>" "\<close>.\<close>

definition sp :: pystr where
  "sp = [32]"

text \<open>
  \<^verbatim>\<open>s.split()\<close>: skip a run of whitespace, take the maximal run of other characters as
  a word, and go on behind it; no word is empty.
\<close>

function str_split :: "pystr \<Rightarrow> pystr list" where
  "str_split s =
     (case dropWhile isspace s of
        [] \<Rightarrow> []
      | c # cs \<Rightarrow> (c # takeWhile (\<lambda>x. \<not> isspace x) cs) # str_split (dropWhile (\<lambda>x. \<not> isspace x) cs))"
  by pat_completeness auto
termination
proof (relation "measure length")
  show "wf (measure length)" by simp
next
  fix s :: pystr and c cs
  assume a: "dropWhile isspace s = c # cs"
  have "length (dropWhile (\<lambda>x. \<not> isspace x) cs) \<le> length cs"
    by (rule length_dropWhile_le)
  also have "length cs < length (dropWhile isspace s)"
    using a by simp
  also have "length (dropWhile isspace s) \<le> length s"
    by (rule length_dropWhile_le)
  finally show "(dropWhile (\<lambda>x. \<not> isspace x) cs, s) \<in> measure length"
    by simp
qed

declare str_split.simps [simp del]

text \<open>\<^verbatim>\<open>s.strip()\<close>: whitespace removed at both ends.\<close>

definition str_strip :: "pystr \<Rightarrow> pystr" where
  "str_strip s = rev (dropWhile isspace (rev (dropWhile isspace s)))"

text \<open>\<^verbatim>\<open>sep.join(xs)\<close>.\<close>

fun str_join :: "pystr \<Rightarrow> pystr list \<Rightarrow> pystr" where
  "str_join sep [] = []"
| "str_join sep [x] = x"
| "str_join sep (x # y # ys) = x @ sep @ str_join sep (y # ys)"

text \<open>
  \<^verbatim>\<open>range(start, stop, step)\<close> as the list it iterates over; a zero step raises
  \<^verbatim>\<open>ValueError\<close>.
\<close>

definition py_range :: "int \<Rightarrow> int \<Rightarrow> int \<Rightarrow> py_error + int list" where
  "py_range start stop step =
     (if step = 0 then Inl ValueError
      else if 0 < step then
        Inr (map (\<lambda>k. start + int k * step) [0..<nat ((stop - start + step - 1) div step)])
      else
        Inr (map (\<lambda>k. start + int k * step) [0..<nat ((start - stop - step - 1) div (- step))]))"

text \<open>
  \<^verbatim>\<open>xs[i:j]\<close>: a negative bound counts from the end, and both bounds are clipped to the
  list, so a slice never raises.
\<close>

definition py_slice :: "'a list \<Rightarrow> int \<Rightarrow> int \<Rightarrow> 'a list" where
  "py_slice xs i j =
     (let n = int (length xs);
          lo = (if i < 0 then max 0 (n + i) else min i n);
          hi = (if j < 0 then max 0 (n + j) else min j n)
      in take (nat (hi - lo)) (drop (nat lo) xs))"

section \<open>Chunking\<close>

text \<open>
  \<^verbatim>\<open>chunk_text\<close> of \<^verbatim>\<open>summarizer/app.py\<close>: the loop over \<^verbatim>\<open>range(0, len(words), max_words)\<close>
  appends the joined slice when its \<^verbatim>\<open>strip()\<close> is not empty.
\<close>

fun chunk_loop :: "pystr list \<Rightarrow> int \<Rightarrow> int list \<Rightarrow> pystr list \<Rightarrow> pystr list" where
  "chunk_loop words max_words [] chunks = chunks"
| "chunk_loop words max_words (i # is) chunks =
     (let chunk = str_join sp (py_slice words i (i + max_words))
      in chunk_loop words max_words is
           (if str_strip chunk \<noteq> [] then chunks @ [chunk] else chunks))"

definition chunk_text :: "pystr \<Rightarrow> int \<Rightarrow> py_error + pystr list" where
  "chunk_text text max_words =
     (let words = str_split text
      in case py_range 0 (int (length words)) max_words of
           Inl e \<Rightarrow> Inl e
         | Inr is \<Rightarrow> Inr (chunk_loop words max_words is []))"

text \<open>
  \<^verbatim>\<open>chunk_text\<close> of \<^verbatim>\<open>summarizer/summarize_pdf.py\<close>: a list comprehension that keeps the
  joined slice when the slice itself is not empty.
\<close>

definition chunk_text_cli :: "pystr \<Rightarrow> int \<Rightarrow> py_error + pystr list" where
  "chunk_text_cli text max_words =
     (let words = str_split text
      in case py_range 0 (int (length words)) max_words of
           Inl e \<Rightarrow> Inl e
         | Inr is \<Rightarrow>
             Inr (map (\<lambda>i. str_join sp (py_slice words i (i + max_words)))
                    (filter (\<lambda>i. py_slice words i (i + max_words) \<noteq> []) is)))"

section \<open>Summarization\<close>

text \<open>
  The summarization capability is external: \<^verbatim>\<open>pipeline("summarization", model=name)\<close> of
  the transformers library gives a callable, and
  \<^verbatim>\<open>summarizer(text, max_length=ml, min_length=mn, do_sample=False)[0]["summary_text"]\<close>
  either is a string or raises. The library is a parameter of the model: a function from
  the model identifier to the callable, or to the exception that loading raises.
\<close>

type_synonym capability = "pystr \<Rightarrow> int \<Rightarrow> int \<Rightarrow> py_error + pystr"

type_synonym library = "pystr \<Rightarrow> py_error + capability"

text \<open>
  Every call that leaves the program is recorded, in order, with what it returned or
  raised: a request for the capability of a model, and an invocation of a capability
  (model, text, \<^verbatim>\<open>max_length\<close>, \<^verbatim>\<open>min_length\<close>).
\<close>

datatype event =
    RequestCapability pystr "py_error option"
  | Invoke pystr pystr int int "py_error + pystr"

text \<open>The default of \<^verbatim>\<open>model_name\<close>: \<^verbatim>\<open>"facebook/bart-large-cnn"\<close>.\<close>

definition DEFAULT_MODEL :: pystr where
  "DEFAULT_MODEL = map of_char ''facebook/bart-large-cnn''"

text \<open>
  \<^verbatim>\<open>get_summarizer(model_name="facebook/bart-large-cnn")\<close>; the argument is \<open>None\<close> when
  the caller passes none. The result is the summarizer object: the model it was made for
  and the callable. \<^verbatim>\<open>st.cache_resource\<close> only saves loading the same model again; the
  library being a function, the cached object is the one a new call would give.
\<close>

definition get_summarizer ::
  "library \<Rightarrow> pystr option \<Rightarrow> event list \<times> (py_error + pystr \<times> capability)" where
  "get_summarizer pipeline model_name =
     (let name = (case model_name of None \<Rightarrow> DEFAULT_MODEL | Some m \<Rightarrow> m)
      in case pipeline name of
           Inl e \<Rightarrow> ([RequestCapability name (Some e)], Inl e)
         | Inr run \<Rightarrow> ([RequestCapability name None], Inr (name, run)))"

text \<open>The two lines under \<^verbatim>\<open># Guardrail for very small chunks\<close>.\<close>

definition guard_ml :: "int \<Rightarrow> pystr \<Rightarrow> int" where
  "guard_ml max_length ch = max 32 (min max_length (max 64 (int (length (str_split ch)) div 2)))"

definition guard_mn :: "int \<Rightarrow> int \<Rightarrow> int" where
  "guard_mn min_length ml = max 16 (min min_length (ml - 16))"

text \<open>
  The loop of \<^verbatim>\<open>summarize_chunks\<close>; an exception of the summarizer leaves the loop and
  the function.
\<close>

fun summarize_loop ::
  "pystr \<times> capability \<Rightarrow> int \<Rightarrow> int \<Rightarrow> pystr list \<Rightarrow> event list \<Rightarrow> pystr list \<Rightarrow>
   event list \<times> (py_error + pystr list)" where
  "summarize_loop summarizer max_length min_length [] log summaries = (log, Inr summaries)"
| "summarize_loop summarizer max_length min_length (ch # chs) log summaries =
     (let ml = guard_ml max_length ch;
          mn = guard_mn min_length ml;
          out = snd summarizer ch ml mn;
          log' = log @ [Invoke (fst summarizer) ch ml mn out]
      in case out of
           Inl e \<Rightarrow> (log', Inl e)
         | Inr s \<Rightarrow> summarize_loop summarizer max_length min_length chs log' (summaries @ [s]))"

text \<open>
  \<^verbatim>\<open>summarize_chunks(chunks, max_length=160, min_length=60, **kwargs)\<close>; \<open>kwargs\<close> is the
  dictionary of the other keyword arguments.
\<close>

definition summarize_chunks ::
  "library \<Rightarrow> pystr list \<Rightarrow> int \<Rightarrow> int \<Rightarrow> (string \<rightharpoonup> pystr) \<Rightarrow>
   event list \<times> (py_error + pystr list)" where
  "summarize_chunks pipeline chunks max_length min_length kwargs =
     (case get_summarizer pipeline
             (Some (case kwargs ''model_name'' of None \<Rightarrow> DEFAULT_MODEL | Some m \<Rightarrow> m)) of
        (log, Inl e) \<Rightarrow> (log, Inl e)
      | (log, Inr summarizer) \<Rightarrow> summarize_loop summarizer max_length min_length chunks log [])"

text \<open>
  \<^verbatim>\<open>summarize_pdf_text(text, per_chunk_words=500, final_pass=True)\<close>: the pair of the
  final summary and the chunk summaries, or the exception raised, with the calls made.
\<close>

definition summarize_pdf_text ::
  "library \<Rightarrow> pystr \<Rightarrow> int \<Rightarrow> bool \<Rightarrow> event list \<times> (py_error + pystr \<times> pystr list)" where
  "summarize_pdf_text pipeline text per_chunk_words final_pass =
     (if text = [] \<or> str_strip text = [] then ([], Inr ([], []))
      else case chunk_text text per_chunk_words of
        Inl e \<Rightarrow> ([], Inl e)
      | Inr chunks \<Rightarrow>
          if length chunks = 0 then ([], Inr ([], []))
          else case summarize_chunks pipeline chunks 160 60 Map.empty of
            (log, Inl e) \<Rightarrow> (log, Inl e)
          | (log, Inr chunk_summaries) \<Rightarrow>
              (let joined = str_join sp chunk_summaries
               in if final_pass \<and> 1 < length chunk_summaries then
                    (case get_summarizer pipeline None of
                       (log2, Inl e) \<Rightarrow> (log @ log2, Inl e)
                     | (log2, Inr summarizer) \<Rightarrow>
                         (let out = snd summarizer joined 220 90;
                              log' = log @ log2 @ [Invoke (fst summarizer) joined 220 90 out]
                          in case out of
                               Inl e \<Rightarrow> (log', Inl e)
                             | Inr final \<Rightarrow> (log', Inr (final, chunk_summaries))))
                  else
                    (case chunk_summaries of
                       [] \<Rightarrow> (log, Inl IndexError)
                     | final # _ \<Rightarrow> (log, Inr (final, chunk_summaries)))))"

subsection \<open>The command-line tool\<close>

text \<open>
  \<^verbatim>\<open>main\<close> of \<^verbatim>\<open>summarizer/summarize_pdf.py\<close>, from the text that \<^verbatim>\<open>extract_text\<close>
  returned and the parsed arguments \<^verbatim>\<open>--model\<close>, \<^verbatim>\<open>--chunk\<close> and \<^verbatim>\<open>--final-pass\<close>. What it
  prints is either the notice that no text was extracted or the final summary; the
  progress line printed before each chunk is left out.
\<close>

datatype cli_output = NoTextExtracted | FinalSummary pystr

fun main_loop ::
  "pystr \<times> capability \<Rightarrow> pystr list \<Rightarrow> event list \<Rightarrow> pystr list \<Rightarrow>
   event list \<times> (py_error + pystr list)" where
  "main_loop summarizer [] log summaries = (log, Inr summaries)"
| "main_loop summarizer (ch # chs) log summaries =
     (let out = snd summarizer ch 160 60;
          log' = log @ [Invoke (fst summarizer) ch 160 60 out]
      in case out of
           Inl e \<Rightarrow> (log', Inl e)
         | Inr s \<Rightarrow> main_loop summarizer chs log' (summaries @ [s]))"

definition main ::
  "library \<Rightarrow> pystr \<Rightarrow> pystr \<Rightarrow> int \<Rightarrow> bool \<Rightarrow> event list \<times> (py_error + cli_output)" where
  "main pipeline text model chunk final_pass =
     (if text = [] then ([], Inr NoTextExtracted)
      else case chunk_text_cli text chunk of
        Inl e \<Rightarrow> ([], Inl e)
      | Inr chunks \<Rightarrow>
          (case pipeline model of
             Inl e \<Rightarrow> ([RequestCapability model (Some e)], Inl e)
           | Inr run \<Rightarrow>
               (case main_loop (model, run) chunks [RequestCapability model None] [] of
                  (log, Inl e) \<Rightarrow> (log, Inl e)
                | (log, Inr summaries) \<Rightarrow>
                    (let final = str_join sp summaries
                     in if final_pass \<and> 1 < length summaries then
                          (let out = run final 220 90;
                               log' = log @ [Invoke model final 220 90 out]
                           in case out of
                                Inl e \<Rightarrow> (log', Inl e)
                              | Inr final' \<Rightarrow> (log', Inr (FinalSummary final')))
                        else (log, Inr (FinalSummary final))))))"

section \<open>Notions used in the statements\<close>

text \<open>
  A word is a non-empty string without whitespace: what \<^verbatim>\<open>split()\<close> returns.
\<close>

definition is_word :: "pystr \<Rightarrow> bool" where
  "is_word w = (w \<noteq> [] \<and> (\<forall>c \<in> set w. \<not> isspace c))"

text \<open>
  The partition of a list into consecutive groups of \<open>n\<close> elements, the last one possibly
  shorter; \<open>n_groups\<close> is the number of groups.
\<close>

definition n_groups :: "nat \<Rightarrow> nat \<Rightarrow> nat" where
  "n_groups len n = (len + n - 1) div n"

definition groups :: "'a list \<Rightarrow> nat \<Rightarrow> 'a list list" where
  "groups ws n = map (\<lambda>k. take n (drop (k * n) ws)) [0..<n_groups (length ws) n]"

text \<open>
  The exception an event records, if any, and the model an event is about.
\<close>

definition raised :: "event \<Rightarrow> py_error option" where
  "raised ev =
     (case ev of
        RequestCapability _ r \<Rightarrow> r
      | Invoke _ _ _ _ out \<Rightarrow> (case out of Inl e \<Rightarrow> Some e | Inr _ \<Rightarrow> None))"

definition event_model :: "event \<Rightarrow> pystr" where
  "event_model ev = (case ev of RequestCapability m _ \<Rightarrow> m | Invoke m _ _ _ _ \<Rightarrow> m)"

definition is_invoke :: "event \<Rightarrow> bool" where
  "is_invoke ev = (case ev of Invoke _ _ _ _ _ \<Rightarrow> True | RequestCapability _ _ \<Rightarrow> False)"

text \<open>
  A log is clean when no call in it raised; it is stopped by \<open>e\<close> when its last call
  raised \<open>e\<close> and no call before did.
\<close>

definition clean :: "event list \<Rightarrow> bool" where
  "clean log = (\<forall>ev \<in> set log. raised ev = None)"

definition stopped :: "event list \<Rightarrow> py_error \<Rightarrow> bool" where
  "stopped log e = (log \<noteq> [] \<and> clean (butlast log) \<and> raised (last log) = Some e)"

text \<open>
  The invocation that the loop of \<^verbatim>\<open>summarize_chunks\<close> makes for a chunk, and the one
  that the loop of the command-line tool makes.
\<close>

definition ui_request :: "pystr \<times> capability \<Rightarrow> int \<Rightarrow> int \<Rightarrow> pystr \<Rightarrow> event" where
  "ui_request s M m ch =
     Invoke (fst s) ch (guard_ml M ch) (guard_mn m (guard_ml M ch))
       (snd s ch (guard_ml M ch) (guard_mn m (guard_ml M ch)))"

definition cli_request :: "pystr \<times> capability \<Rightarrow> pystr \<Rightarrow> event" where
  "cli_request s ch = Invoke (fst s) ch 160 60 (snd s ch 160 60)"

text \<open>
  Three capabilities for the scenarios: one returns its input followed by \<^verbatim>\<open>#\<close>, one
  does the same but raises on the text \<^verbatim>\<open>b\<close>, and one does the same but raises when it
  is asked for \<^verbatim>\<open>max_length = 220\<close>, that is in the final pass.
\<close>

definition stub_capability :: capability where
  "stub_capability t ml mn = Inr (t @ [35])"

definition stub_library :: library where
  "stub_library name = Inr stub_capability"

definition failing_capability :: capability where
  "failing_capability t ml mn = (if t = [98] then Inl (CapabilityFailure 1) else Inr (t @ [35]))"

definition failing_library :: library where
  "failing_library name = Inr failing_capability"

definition final_failing_capability :: capability where
  "final_failing_capability t ml mn = (if ml = 220 then Inl (CapabilityFailure 2) else Inr (t @ [35]))"

definition final_failing_library :: library where
  "final_failing_library name = Inr final_failing_capability"

section \<open>Splitting, joining and stripping\<close>

lemma str_split_Nil [simp]: "str_split [] = []"
  by (simp add: str_split.simps)

lemma str_split_space [simp]: "isspace c \<Longrightarrow> str_split (c # s) = str_split s"
  by (simp add: str_split.simps [of "c # s"] str_split.simps [of s])

lemma str_split_nonspace:
  "\<not> isspace c \<Longrightarrow>
   str_split (c # s) =
     (c # takeWhile (\<lambda>x. \<not> isspace x) s) # str_split (dropWhile (\<lambda>x. \<not> isspace x) s)"
  by (simp add: str_split.simps [of "c # s"])

lemma str_split_words: "w \<in> set (str_split s) \<Longrightarrow> is_word w"
proof (induction s arbitrary: w rule: str_split.induct)
  case (1 s)
  show ?case
  proof (cases "dropWhile isspace s")
    case Nil
    with "1.prems" show ?thesis by (simp add: str_split.simps [of s])
  next
    case (Cons c cs)
    have nc: "\<not> isspace c"
      using Cons hd_dropWhile [of isspace s] by auto
    from "1.prems" Cons
    have "w = c # takeWhile (\<lambda>x. \<not> isspace x) cs \<or> w \<in> set (str_split (dropWhile (\<lambda>x. \<not> isspace x) cs))"
      by (simp add: str_split.simps [of s])
    then show ?thesis
    proof
      assume "w = c # takeWhile (\<lambda>x. \<not> isspace x) cs"
      then show ?thesis using nc by (auto simp: is_word_def dest: set_takeWhileD)
    next
      assume "w \<in> set (str_split (dropWhile (\<lambda>x. \<not> isspace x) cs))"
      then show ?thesis using "1.IH" Cons by blast
    qed
  qed
qed

lemma str_split_word_append:
  assumes "is_word w" and "rest = [] \<or> isspace (hd rest)"
  shows "str_split (w @ rest) = w # str_split rest"
proof -
  from assms(1) obtain c w' where w: "w = c # w'" and nc: "\<not> isspace c"
    and nw: "\<forall>x \<in> set w'. \<not> isspace x"
    by (cases w) (auto simp: is_word_def)
  have tk: "takeWhile (\<lambda>x. \<not> isspace x) (w' @ rest) = w'"
    using nw assms(2) by (cases rest) (auto simp: takeWhile_append2)
  have dr: "dropWhile (\<lambda>x. \<not> isspace x) (w' @ rest) = rest"
    using nw assms(2) by (cases rest) (auto simp: dropWhile_append2)
  show ?thesis
    using nc by (simp add: w str_split_nonspace tk dr)
qed

lemma isspace_sp [simp]: "isspace 32"
  by (simp add: isspace_def)

lemma str_split_join:
  "\<forall>w \<in> set ws. is_word w \<Longrightarrow> str_split (str_join sp ws) = ws"
proof (induction ws rule: induct_list012)
  case 1
  then show ?case by simp
next
  case (2 x)
  then show ?case using str_split_word_append [of x "[]"] by simp
next
  case More: (3 x y ys)
  have "str_split (x @ sp @ str_join sp (y # ys)) = x # str_split (sp @ str_join sp (y # ys))"
    using More.prems by (intro str_split_word_append) (auto simp: sp_def)
  also have "str_split (sp @ str_join sp (y # ys)) = str_split (str_join sp (y # ys))"
    by (simp add: sp_def)
  also have "\<dots> = y # ys"
    using More by simp
  finally show ?case by simp
qed

lemma dropWhile_all_space:
  "(\<forall>x \<in> set (dropWhile isspace s). isspace x) \<longleftrightarrow> (\<forall>x \<in> set s. isspace x)"
proof (cases "dropWhile isspace s")
  case Nil
  then show ?thesis by (auto dest: set_dropWhileD)
next
  case (Cons c cs)
  then have "\<not> isspace c" using hd_dropWhile [of isspace s] by auto
  moreover have "c \<in> set s" using Cons set_dropWhileD [of c isspace s] by simp
  ultimately show ?thesis using Cons by auto
qed

lemma str_strip_eq_Nil: "str_strip s = [] \<longleftrightarrow> (\<forall>c \<in> set s. isspace c)"
  by (simp add: str_strip_def dropWhile_eq_Nil_conv dropWhile_all_space)

lemma str_split_blank: "\<forall>c \<in> set s. isspace c \<Longrightarrow> str_split s = []"
proof -
  assume "\<forall>c \<in> set s. isspace c"
  then have h: "dropWhile isspace s = []" by simp
  show ?thesis by (subst str_split.simps, subst h, simp)
qed

section \<open>The range and the slices of the chunker\<close>

lemma py_range_pos:
  assumes "0 < n"
  shows "py_range 0 (int len) n = Inr (map (\<lambda>k. int k * n) [0..<n_groups len (nat n)])"
proof -
  from assms obtain N where N: "n = int N" and Npos: "0 < N"
    by (rule pos_int_cases)
  have e: "int len + int N - 1 = int (len + N - 1)"
    using Npos by (simp add: of_nat_diff)
  have "(int len + n - 1) div n = int (len + N - 1) div int N"
    by (simp only: N e)
  also have "\<dots> = int ((len + N - 1) div N)"
    by (rule zdiv_int [symmetric])
  finally have d: "nat ((int len + n - 1) div n) = n_groups len (nat n)"
    unfolding n_groups_def N by simp
  have "py_range 0 (int len) n =
          Inr (map (\<lambda>k. 0 + int k * n) [0..<nat ((int len - 0 + n - 1) div n)])"
  proof -
    from assms have "n \<noteq> 0" by simp
    with assms show ?thesis unfolding py_range_def by (simp only: if_False if_True)
  qed
  then show ?thesis using d by simp
qed

lemma py_range_empty: "py_range 0 0 n = Inl ValueError \<or> py_range 0 0 n = Inr []"
proof (cases "n = 0")
  case True
  then show ?thesis by (simp add: py_range_def)
next
  case False
  show ?thesis
  proof (cases "0 < n")
    case True
    then have "(n - 1) div n = 0" by (simp add: div_pos_pos_trivial)
    with True show ?thesis by (simp add: py_range_def)
  next
    case neg: False
    with \<open>n \<noteq> 0\<close> have "(- n - 1) div (- n) = 0" by (simp add: div_pos_pos_trivial)
    with neg \<open>n \<noteq> 0\<close> show ?thesis by (simp add: py_range_def)
  qed
qed

lemma py_slice_nat: "py_slice ws (int a) (int a + int b) = take b (drop a ws)"
proof (cases "a \<le> length ws")
  case True
  show ?thesis
  proof (cases "a + b \<le> length ws")
    case True
    with \<open>a \<le> length ws\<close> show ?thesis
      by (simp add: py_slice_def Let_def min_def)
  next
    case False
    with \<open>a \<le> length ws\<close> have "nat (int (length ws) - int a) = length ws - a" by simp
    with False \<open>a \<le> length ws\<close> show ?thesis
      by (simp add: py_slice_def Let_def min_def)
  qed
next
  case False
  then show ?thesis
    by (simp add: py_slice_def Let_def min_def)
qed

lemma py_slice_window:
  assumes "0 < n"
  shows "py_slice ws (int k * n) (int k * n + n) = take (nat n) (drop (k * nat n) ws)"
proof -
  have "int k * n = int (k * nat n)" and "n = int (nat n)"
    using assms by simp_all
  then show ?thesis
    using py_slice_nat [of ws "k * nat n" "nat n"] by simp
qed

lemma chunk_loop_filter:
  "chunk_loop words n is acc =
     acc @ filter (\<lambda>c. str_strip c \<noteq> []) (map (\<lambda>i. str_join sp (py_slice words i (i + n))) is)"
  by (induction "is" arbitrary: acc) (simp_all add: Let_def)

lemma concat_groups_take:
  "concat (map (\<lambda>k. take n (drop (k * n) ws)) [0..<m]) = take (m * n) ws"
proof (induction m)
  case 0
  show ?case by simp
next
  case (Suc m)
  have "take (Suc m * n) ws = take (m * n + n) ws"
    by (simp add: add.commute)
  also have "\<dots> = take (m * n) ws @ take n (drop (m * n) ws)"
    by (rule take_add)
  finally show ?case using Suc by simp
qed

lemma groups_count:
  assumes "0 < n"
  shows "len \<le> n_groups len n * n"
proof -
  have "len + n - 1 = ((len + n - 1) div n) * n + (len + n - 1) mod n"
    by simp
  moreover have "(len + n - 1) mod n < n" using assms by simp
  ultimately show ?thesis unfolding n_groups_def by linarith
qed

lemma concat_groups:
  assumes "0 < n"
  shows "concat (groups ws n) = ws"
proof -
  have "concat (groups ws n) = take (n_groups (length ws) n * n) ws"
    unfolding groups_def by (rule concat_groups_take)
  also have "\<dots> = ws"
    using groups_count [OF assms, of "length ws"] by simp
  finally show ?thesis .
qed

lemma groups_start:
  assumes "0 < n" and "k < n_groups len n"
  shows "k * n < len"
proof -
  have "Suc k * n \<le> ((len + n - 1) div n) * n"
    using assms(2) unfolding n_groups_def by (intro mult_le_mono1) simp
  also have "\<dots> \<le> len + n - 1"
    by (rule div_times_less_eq_dividend)
  finally show ?thesis using assms(1) by simp
qed

lemma groups_full:
  assumes "0 < n" and "Suc k < n_groups len n"
  shows "Suc k * n \<le> len"
  using groups_start [OF assms] by simp

lemma length_groups: "length (groups ws n) = n_groups (length ws) n"
  by (simp add: groups_def)

lemma nth_groups:
  "k < length (groups ws n) \<Longrightarrow> groups ws n ! k = take n (drop (k * n) ws)"
  by (simp add: groups_def)

lemma groups_nonempty:
  assumes "0 < n" and "g \<in> set (groups ws n)"
  shows "g \<noteq> []" and "length g \<le> n"
proof -
  from assms(2) obtain k where k: "k < n_groups (length ws) n"
    and g: "g = take n (drop (k * n) ws)"
    by (auto simp: groups_def)
  from groups_start [OF assms(1) k] show "g \<noteq> []"
    using assms(1) by (simp add: g)
  show "length g \<le> n" by (simp add: g)
qed

lemma groups_butlast_full:
  assumes "0 < n" and "g \<in> set (butlast (groups ws n))"
  shows "length g = n"
proof -
  from assms(2) obtain k where k: "k < length (butlast (groups ws n))"
    and g: "g = butlast (groups ws n) ! k"
    by (auto simp: in_set_conv_nth)
  from k have k': "Suc k < n_groups (length ws) n"
    by (simp add: length_groups)
  then have "g = take n (drop (k * n) ws)"
    using g k by (simp add: nth_butlast nth_groups length_groups)
  moreover have "Suc k * n \<le> length ws"
    by (rule groups_full [OF assms(1) k'])
  ultimately show ?thesis by simp
qed

lemma groups_words:
  "\<forall>w \<in> set ws. is_word w \<Longrightarrow> g \<in> set (groups ws n) \<Longrightarrow> \<forall>w \<in> set g. is_word w"
  by (auto simp: groups_def dest!: in_set_takeD in_set_dropD)

lemma strip_join_words:
  assumes "g \<noteq> []" and "\<forall>w \<in> set g. is_word w"
  shows "str_strip (str_join sp g) \<noteq> []"
proof -
  have "str_split (str_join sp g) = g"
    using assms(2) by (rule str_split_join)
  with assms(1) have "str_split (str_join sp g) \<noteq> []" by simp
  moreover have "str_split s = []" if "\<forall>c \<in> set s. isspace c" for s
  proof -
    from that have h: "dropWhile isspace s = []" by simp
    show ?thesis by (subst str_split.simps, subst h, simp)
  qed
  ultimately show ?thesis
    by (auto simp: str_strip_eq_Nil)
qed

lemma split_join_groups:
  "map str_split (map (str_join sp) (groups (str_split text) n)) = groups (str_split text) n"
proof -
  have "str_split (str_join sp g) = g" if "g \<in> set (groups (str_split text) n)" for g
  proof (rule str_split_join)
    show "\<forall>w \<in> set g. is_word w"
      using groups_words [OF _ that] str_split_words by blast
  qed
  then show ?thesis by (simp add: map_idI)
qed

text \<open>
  For a positive \<^verbatim>\<open>max_words\<close> both chunkers return the groups of the words of the text,
  each joined by single spaces.
\<close>

lemma chunk_text_groups:
  assumes "0 < n"
  shows "chunk_text text n = Inr (map (str_join sp) (groups (str_split text) (nat n)))"
proof -
  let ?ws = "str_split text"
  let ?N = "nat n"
  have N: "0 < ?N" using assms by simp
  have sl: "map (\<lambda>i. str_join sp (py_slice ?ws i (i + n)))
              (map (\<lambda>k. int k * n) [0..<n_groups (length ?ws) ?N])
            = map (str_join sp) (groups ?ws ?N)"
    unfolding groups_def map_map
    by (rule map_cong [OF refl]) (simp add: py_slice_window [OF assms])
  have keep: "filter (\<lambda>c. str_strip c \<noteq> []) (map (str_join sp) (groups ?ws ?N))
              = map (str_join sp) (groups ?ws ?N)"
  proof (rule filter_True, clarsimp)
    fix g assume g: "g \<in> set (groups ?ws ?N)" and e: "str_strip (str_join sp g) = []"
    have "\<forall>w \<in> set g. is_word w"
      using groups_words [OF _ g] str_split_words by blast
    with groups_nonempty(1) [OF N g] e show False
      using strip_join_words by blast
  qed
  show ?thesis
    by (simp add: chunk_text_def Let_def py_range_pos [OF assms] chunk_loop_filter sl keep
        del: map_map)
qed

lemma chunk_text_cli_groups:
  assumes "0 < n"
  shows "chunk_text_cli text n = Inr (map (str_join sp) (groups (str_split text) (nat n)))"
proof -
  let ?ws = "str_split text"
  let ?N = "nat n"
  have N: "0 < ?N" using assms by simp
  have keep: "filter (\<lambda>i. py_slice ?ws i (i + n) \<noteq> [])
                (map (\<lambda>k. int k * n) [0..<n_groups (length ?ws) ?N])
              = map (\<lambda>k. int k * n) [0..<n_groups (length ?ws) ?N]"
  proof (rule filter_True, clarsimp)
    fix k assume k: "k < n_groups (length ?ws) ?N"
      and e: "py_slice ?ws (int k * n) (int k * n + n) = []"
    from groups_start [OF N k] e N show False
      by (simp add: py_slice_window [OF assms])
  qed
  have sl: "map (\<lambda>i. str_join sp (py_slice ?ws i (i + n)))
              (map (\<lambda>k. int k * n) [0..<n_groups (length ?ws) ?N])
            = map (str_join sp) (groups ?ws ?N)"
    unfolding groups_def map_map
    by (rule map_cong [OF refl]) (simp add: py_slice_window [OF assms])
  show ?thesis
    by (simp add: chunk_text_cli_def Let_def py_range_pos [OF assms] keep sl del: map_map)
qed

lemma chunk_text_zero:
  "chunk_text text 0 = Inl ValueError" and "chunk_text_cli text 0 = Inl ValueError"
  by (simp_all add: chunk_text_def chunk_text_cli_def py_range_def)

lemma chunk_text_blank:
  assumes "str_split text = []" and "chunk_text text n = Inr chunks"
  shows "chunks = []"
  using assms py_range_empty [of n] by (auto simp: chunk_text_def)

lemma chunk_text_cli_blank:
  assumes "str_split text = []" and "chunk_text_cli text n = Inr chunks"
  shows "chunks = []"
  using assms py_range_empty [of n] by (auto simp: chunk_text_cli_def)

lemma chunks_text_not_blank:
  assumes "chunk_text text n = Inr chunks" and "chunks \<noteq> []"
  shows "text \<noteq> []" and "str_strip text \<noteq> []"
proof -
  from assms have "str_split text \<noteq> []"
    using chunk_text_blank by blast
  then have "\<not> (\<forall>c \<in> set text. isspace c)"
    using str_split_blank by blast
  then show "text \<noteq> []" and "str_strip text \<noteq> []"
    by (auto simp: str_strip_eq_Nil)
qed

lemma chunks_cli_text_not_empty:
  assumes "chunk_text_cli text n = Inr chunks" and "chunks \<noteq> []"
  shows "text \<noteq> []"
proof -
  from assms have "str_split text \<noteq> []"
    using chunk_text_cli_blank by blast
  then show ?thesis using str_split_blank [of "text"] by auto
qed

text \<open>The chunks of two small texts, computed.\<close>

lemma ex_chunks2:
  "chunk_text [32, 97, 98, 32, 9, 99, 32, 100] 2 = Inr [[97, 98, 32, 99], [100]]"
  by (simp add: chunk_text_def py_range_def py_slice_def str_strip_def sp_def
      str_split_nonspace isspace_def upt_conv_Cons)

lemma ex_chunks2_cli:
  "chunk_text_cli [32, 97, 98, 32, 9, 99, 32, 100] 2 = Inr [[97, 98, 32, 99], [100]]"
  by (simp add: chunk_text_cli_def py_range_def py_slice_def sp_def
      str_split_nonspace isspace_def upt_conv_Cons)

lemma ex_split: "str_split [97, 32, 98] = [[97], [98]]"
  by (simp add: str_split_nonspace isspace_def)

lemma ex_chunks: "chunk_text [97, 32, 98] 1 = Inr [[97], [98]]"
  by (simp add: chunk_text_def ex_split py_range_def py_slice_def str_strip_def sp_def
      isspace_def upt_conv_Cons)

lemma ex_chunks_cli: "chunk_text_cli [97, 32, 98] 1 = Inr [[97], [98]]"
  by (simp add: chunk_text_cli_def ex_split py_range_def py_slice_def sp_def upt_conv_Cons)

lemma ex_split3: "str_split [97, 32, 98, 32, 99] = [[97], [98], [99]]"
  by (simp add: str_split_nonspace isspace_def)

lemma ex_chunks3: "chunk_text [97, 32, 98, 32, 99] 1 = Inr [[97], [98], [99]]"
  by (simp add: chunk_text_def ex_split3 py_range_def py_slice_def str_strip_def sp_def
      isspace_def upt_conv_Cons)

lemma ex_chunks3_cli: "chunk_text_cli [97, 32, 98, 32, 99] 1 = Inr [[97], [98], [99]]"
  by (simp add: chunk_text_cli_def ex_split3 py_range_def py_slice_def sp_def upt_conv_Cons)

section \<open>Properties of the chunker\<close>

text \<open>
  Claim C1 (lossless partition). For every text and every positive \<^verbatim>\<open>max_words\<close>,
  \<^verbatim>\<open>chunk_text\<close> returns, in both programs, and the word sequences of the chunks,
  concatenated in order, are the word sequence of the text: no word is lost, repeated or
  moved.
\<close>

theorem chunk_text_lossless:
  assumes "0 < max_words"
  shows "(\<exists>chunks. chunk_text text max_words = Inr chunks \<and>
            concat (map str_split chunks) = str_split text) \<and>
         (\<exists>chunks. chunk_text_cli text max_words = Inr chunks \<and>
            concat (map str_split chunks) = str_split text)"
proof -
  have "0 < nat max_words" using assms by simp
  then have "concat (map str_split (map (str_join sp) (groups (str_split text) (nat max_words))))
               = str_split text"
    unfolding split_join_groups by (rule concat_groups)
  then show ?thesis
    unfolding chunk_text_groups [OF assms] chunk_text_cli_groups [OF assms] by blast
qed

theorem chunk_text_lossless_witness:
  "(0::int) < 2 \<and>
   chunk_text [32, 97, 98, 32, 9, 99, 32, 100] 2 = Inr [[97, 98, 32, 99], [100]] \<and>
   chunk_text_cli [32, 97, 98, 32, 9, 99, 32, 100] 2 = Inr [[97, 98, 32, 99], [100]] \<and>
   concat (map str_split [[97, 98, 32, 99], [100]]) = str_split [32, 97, 98, 32, 9, 99, 32, 100]"
proof -
  have h: "(0::int) < 2" by simp
  from chunk_text_lossless [OF h, of "[32, 97, 98, 32, 9, 99, 32, 100]"]
  have "concat (map str_split [[97, 98, 32, 99], [100]]) = str_split [32, 97, 98, 32, 9, 99, 32, 100]"
    unfolding ex_chunks2 by simp
  with h ex_chunks2 ex_chunks2_cli show ?thesis by simp
qed

text \<open>
  Claim C2 (chunk size bound). For every text and every positive \<^verbatim>\<open>max_words\<close>, in the
  list returned by either \<^verbatim>\<open>chunk_text\<close> every chunk but the last has exactly
  \<^verbatim>\<open>max_words\<close> words, the last chunk has between 1 and \<^verbatim>\<open>max_words\<close> words, and no chunk
  is empty.
\<close>

theorem chunk_text_sizes:
  assumes "0 < max_words"
    and "chunk_text text max_words = Inr chunks \<or> chunk_text_cli text max_words = Inr chunks"
  shows "(\<forall>c \<in> set (butlast chunks). int (length (str_split c)) = max_words) \<and>
         (chunks \<noteq> [] \<longrightarrow>
            1 \<le> length (str_split (last chunks)) \<and>
            int (length (str_split (last chunks))) \<le> max_words) \<and>
         (\<forall>c \<in> set chunks. c \<noteq> [] \<and> str_split c \<noteq> [])"
proof -
  let ?N = "nat max_words"
  let ?gs = "groups (str_split text) ?N"
  have N: "0 < ?N" using assms(1) by simp
  from assms(2) have chunks: "chunks = map (str_join sp) ?gs"
    unfolding chunk_text_groups [OF assms(1)] chunk_text_cli_groups [OF assms(1)] by auto
  have sj: "str_split (str_join sp g) = g" if "g \<in> set ?gs" for g
  proof (rule str_split_join)
    show "\<forall>w \<in> set g. is_word w"
      using groups_words [OF _ that] str_split_words by blast
  qed
  have ne: "g \<noteq> []" and le: "length g \<le> ?N" if "g \<in> set ?gs" for g
    using groups_nonempty [OF N that] by simp_all
  have 1: "\<forall>c \<in> set (butlast chunks). int (length (str_split c)) = max_words"
  proof
    fix c assume "c \<in> set (butlast chunks)"
    then obtain g where g: "g \<in> set (butlast ?gs)" and c: "c = str_join sp g"
      by (auto simp: chunks map_butlast [symmetric])
    from g have "g \<in> set ?gs" by (rule in_set_butlastD)
    then have "str_split c = g" by (simp add: c sj)
    then show "int (length (str_split c)) = max_words"
      using groups_butlast_full [OF N g] assms(1) by simp
  qed
  have 3: "\<forall>c \<in> set chunks. c \<noteq> [] \<and> str_split c \<noteq> []"
  proof
    fix c assume "c \<in> set chunks"
    then obtain g where g: "g \<in> set ?gs" and c: "c = str_join sp g"
      by (auto simp: chunks)
    then have s: "str_split c = g" by (simp add: sj)
    with ne [OF g] have "str_split c \<noteq> []" by simp
    moreover from this have "c \<noteq> []" by auto
    ultimately show "c \<noteq> [] \<and> str_split c \<noteq> []" by simp
  qed
  have 2: "chunks \<noteq> [] \<longrightarrow>
            1 \<le> length (str_split (last chunks)) \<and>
            int (length (str_split (last chunks))) \<le> max_words"
  proof
    assume n: "chunks \<noteq> []"
    then have gs: "?gs \<noteq> []" by (simp add: chunks)
    then have l: "last ?gs \<in> set ?gs" by simp
    have "last chunks = str_join sp (last ?gs)"
      using gs by (simp add: chunks last_map)
    then have "str_split (last chunks) = last ?gs" by (simp add: sj [OF l])
    then show "1 \<le> length (str_split (last chunks)) \<and>
               int (length (str_split (last chunks))) \<le> max_words"
      using ne [OF l] le [OF l] assms(1) by (cases "last ?gs") auto
  qed
  from 1 2 3 show ?thesis by blast
qed

theorem chunk_text_sizes_witness:
  "(0::int) < 2 \<and>
   chunk_text [32, 97, 98, 32, 9, 99, 32, 100] 2 = Inr [[97, 98, 32, 99], [100]] \<and>
   int (length (str_split [97, 98, 32, 99])) = 2 \<and>
   1 \<le> length (str_split [100]) \<and> int (length (str_split [100])) \<le> 2 \<and>
   str_split [97, 98, 32, 99] \<noteq> [] \<and> str_split [100] \<noteq> []"
proof -
  have h: "(0::int) < 2" by simp
  from chunk_text_sizes [OF h, of "[32, 97, 98, 32, 9, 99, 32, 100]" "[[97, 98, 32, 99], [100]]"]
    ex_chunks2 h
  show ?thesis by simp
qed

text \<open>
  Claim C8 (totality). For every text and every positive \<^verbatim>\<open>max_words\<close>, either
  \<^verbatim>\<open>chunk_text\<close> returns a list of strings and raises nothing. (With \<^verbatim>\<open>max_words = 0\<close>
  the range raises \<^verbatim>\<open>ValueError\<close>, see \<open>chunk_text_zero\<close>; every function of the model is
  defined by terminating recursion.)
\<close>

theorem chunk_text_total:
  assumes "0 < max_words"
  shows "(\<exists>chunks. chunk_text text max_words = Inr chunks) \<and>
         (\<exists>chunks. chunk_text_cli text max_words = Inr chunks)"
  unfolding chunk_text_groups [OF assms] chunk_text_cli_groups [OF assms] by simp

theorem chunk_text_total_witness:
  "(0::int) < 2 \<and>
   (\<exists>chunks. chunk_text [32, 97, 98, 32, 9, 99, 32, 100] 2 = Inr chunks) \<and>
   (\<exists>chunks. chunk_text_cli [32, 97, 98, 32, 9, 99, 32, 100] 2 = Inr chunks)"
proof -
  have h: "(0::int) < 2" by simp
  from chunk_text_total [OF h, of "[32, 97, 98, 32, 9, 99, 32, 100]"] h
  show ?thesis by simp
qed

text \<open>
  Claim C9 (the two chunkers agree). For every text and every positive \<^verbatim>\<open>max_words\<close>,
  \<^verbatim>\<open>chunk_text\<close> of \<^verbatim>\<open>app.py\<close> and \<^verbatim>\<open>chunk_text\<close> of \<^verbatim>\<open>summarize_pdf.py\<close> return the
  same list of chunks.
\<close>

theorem chunk_text_cli_eq:
  assumes "0 < max_words"
  shows "chunk_text text max_words = chunk_text_cli text max_words"
  unfolding chunk_text_groups [OF assms] chunk_text_cli_groups [OF assms] ..

theorem chunk_text_cli_eq_witness:
  "(0::int) < 2 \<and>
   chunk_text [32, 97, 98, 32, 9, 99, 32, 100] 2 = chunk_text_cli [32, 97, 98, 32, 9, 99, 32, 100] 2 \<and>
   chunk_text_cli [32, 97, 98, 32, 9, 99, 32, 100] 2 = Inr [[97, 98, 32, 99], [100]]"
proof -
  have h: "(0::int) < 2" by simp
  from chunk_text_cli_eq [OF h, of "[32, 97, 98, 32, 9, 99, 32, 100]"] h ex_chunks2
  show ?thesis by simp
qed

section \<open>The loops over the chunks\<close>

lemma summarize_loop_ok:
  "map (\<lambda>ch. snd s ch (guard_ml M ch) (guard_mn m (guard_ml M ch))) chs = map Inr sums \<Longrightarrow>
   summarize_loop s M m chs log acc = (log @ map (ui_request s M m) chs, Inr (acc @ sums))"
proof (induction chs arbitrary: log acc sums)
  case Nil
  then show ?case by simp
next
  case (Cons ch chs)
  from Cons.prems obtain x xs where sums: "sums = x # xs"
    and x: "snd s ch (guard_ml M ch) (guard_mn m (guard_ml M ch)) = Inr x"
    and xs: "map (\<lambda>ch. snd s ch (guard_ml M ch) (guard_mn m (guard_ml M ch))) chs = map Inr xs"
    by (cases sums) auto
  show ?case
    by (simp add: Let_def x sums Cons.IH [OF xs] ui_request_def)
qed

lemma main_loop_ok:
  "map (\<lambda>ch. snd s ch 160 60) chs = map Inr sums \<Longrightarrow>
   main_loop s chs log acc = (log @ map (cli_request s) chs, Inr (acc @ sums))"
proof (induction chs arbitrary: log acc sums)
  case Nil
  then show ?case by simp
next
  case (Cons ch chs)
  from Cons.prems obtain x xs where sums: "sums = x # xs"
    and x: "snd s ch 160 60 = Inr x"
    and xs: "map (\<lambda>ch. snd s ch 160 60) chs = map Inr xs"
    by (cases sums) auto
  show ?case
    by (simp add: Let_def x sums Cons.IH [OF xs] cli_request_def)
qed

lemma clean_append [simp]: "clean (xs @ ys) \<longleftrightarrow> clean xs \<and> clean ys"
  by (auto simp: clean_def)

lemma clean_Nil [simp]: "clean []"
  by (simp add: clean_def)

lemma stopped_snoc: "clean log \<Longrightarrow> raised ev = Some e \<Longrightarrow> stopped (log @ [ev]) e"
  by (simp add: stopped_def)

lemma summarize_loop_outcome:
  "clean log \<Longrightarrow> summarize_loop s M m chs log acc = (log', r) \<Longrightarrow>
   (case r of Inr _ \<Rightarrow> clean log' | Inl e \<Rightarrow> stopped log' e)"
proof (induction chs arbitrary: log acc)
  case Nil
  then show ?case by auto
next
  case (Cons ch chs)
  let ?out = "snd s ch (guard_ml M ch) (guard_mn m (guard_ml M ch))"
  let ?ev = "Invoke (fst s) ch (guard_ml M ch) (guard_mn m (guard_ml M ch)) ?out"
  show ?case
  proof (cases ?out)
    case (Inl e)
    then have "raised ?ev = Some e" by (simp add: raised_def)
    with Cons.prems Inl show ?thesis
      by (auto simp: Let_def intro: stopped_snoc)
  next
    case (Inr x)
    then have "clean (log @ [?ev])"
      using Cons.prems(1) by (simp add: clean_def raised_def)
    from Cons.IH [OF this] Cons.prems(2) Inr show ?thesis
      by (simp add: Let_def)
  qed
qed

lemma main_loop_outcome:
  "clean log \<Longrightarrow> main_loop s chs log acc = (log', r) \<Longrightarrow>
   (case r of Inr _ \<Rightarrow> clean log' | Inl e \<Rightarrow> stopped log' e)"
proof (induction chs arbitrary: log acc)
  case Nil
  then show ?case by auto
next
  case (Cons ch chs)
  let ?out = "snd s ch 160 60"
  let ?ev = "Invoke (fst s) ch 160 60 ?out"
  show ?case
  proof (cases ?out)
    case (Inl e)
    then have "raised ?ev = Some e" by (simp add: raised_def)
    with Cons.prems Inl show ?thesis
      by (auto simp: Let_def intro: stopped_snoc)
  next
    case (Inr x)
    then have "clean (log @ [?ev])"
      using Cons.prems(1) by (simp add: clean_def raised_def)
    from Cons.IH [OF this] Cons.prems(2) Inr show ?thesis
      by (simp add: Let_def)
  qed
qed

lemma summarize_loop_events:
  "ev \<in> set (fst (summarize_loop s M m chs log acc)) \<Longrightarrow>
   ev \<in> set log \<or> (\<exists>ch \<in> set chs. ev = ui_request s M m ch)"
proof (induction chs arbitrary: log acc)
  case Nil
  then show ?case by simp
next
  case (Cons ch chs)
  show ?case
  proof (cases "snd s ch (guard_ml M ch) (guard_mn m (guard_ml M ch))")
    case (Inl e)
    with Cons.prems show ?thesis
      by (auto simp: Let_def ui_request_def)
  next
    case (Inr x)
    with Cons.prems have
      "ev \<in> set (fst (summarize_loop s M m chs (log @ [ui_request s M m ch]) (acc @ [x])))"
      by (simp add: Let_def ui_request_def)
    from Cons.IH [OF this] show ?thesis by auto
  qed
qed

lemma stopped_last:
  assumes "stopped log e" and "i < length log" and "raised (log ! i) = Some e'"
  shows "Suc i = length log \<and> e' = e"
proof -
  from assms(1) have ne: "log \<noteq> []" and cl: "clean (butlast log)"
    and la: "raised (last log) = Some e"
    by (simp_all add: stopped_def)
  have "\<not> i < length (butlast log)"
  proof
    assume "i < length (butlast log)"
    then have "log ! i \<in> set (butlast log)"
      by (metis nth_butlast nth_mem)
    with cl assms(3) show False by (simp add: clean_def)
  qed
  with assms(2) have i: "Suc i = length log" by simp
  then have "log ! i = last log"
    using ne by (metis last_conv_nth diff_Suc_1)
  with la assms(3) i show ?thesis by simp
qed

lemma clean_no_raise: "clean log \<Longrightarrow> i < length log \<Longrightarrow> raised (log ! i) \<noteq> Some e"
  by (simp add: clean_def)

lemma is_invoke_ui [simp]: "is_invoke (ui_request s M m ch)"
  by (simp add: is_invoke_def ui_request_def)

lemma is_invoke_cli [simp]: "is_invoke (cli_request s ch)"
  by (simp add: is_invoke_def cli_request_def)

lemma filter_invoke_ui [simp]: "filter is_invoke (map (ui_request s M m) chs) = map (ui_request s M m) chs"
  by (induction chs) simp_all

lemma filter_invoke_cli [simp]: "filter is_invoke (map (cli_request s) chs) = map (cli_request s) chs"
  by (induction chs) simp_all

lemma event_model_ui [simp]: "event_model (ui_request s M m ch) = fst s"
  by (simp add: event_model_def ui_request_def)

lemma summarize_chunks_ok:
  assumes "pl DEFAULT_MODEL = Inr run"
    and "map (\<lambda>ch. run ch (guard_ml M ch) (guard_mn m (guard_ml M ch))) chunks = map Inr sums"
  shows "summarize_chunks pl chunks M m Map.empty =
           (RequestCapability DEFAULT_MODEL None # map (ui_request (DEFAULT_MODEL, run) M m) chunks,
            Inr sums)"
  using assms summarize_loop_ok [of "(DEFAULT_MODEL, run)" M m chunks sums]
  by (simp add: summarize_chunks_def get_summarizer_def)

lemma summarize_chunks_outcome:
  assumes "summarize_chunks pl chunks M m kw = (log, r)"
  shows "case r of Inr _ \<Rightarrow> clean log | Inl e \<Rightarrow> stopped log e"
proof -
  let ?name = "case kw ''model_name'' of None \<Rightarrow> DEFAULT_MODEL | Some x \<Rightarrow> x"
  show ?thesis
  proof (cases "pl ?name")
    case (Inl e)
    with assms have "log = [RequestCapability ?name (Some e)]" and "r = Inl e"
      by (simp_all add: summarize_chunks_def get_summarizer_def Let_def)
    then show ?thesis by (simp add: stopped_def raised_def)
  next
    case (Inr run)
    with assms have
      "summarize_loop (?name, run) M m chunks [RequestCapability ?name None] [] = (log, r)"
      by (simp add: summarize_chunks_def get_summarizer_def Let_def)
    moreover have "clean [RequestCapability ?name None]"
      by (simp add: clean_def raised_def)
    ultimately show ?thesis by (rule summarize_loop_outcome [rotated])
  qed
qed

lemma summarize_chunks_events:
  assumes "ev \<in> set (fst (summarize_chunks pl chunks M m kw))"
  shows "(\<exists>r. ev = RequestCapability (case kw ''model_name'' of None \<Rightarrow> DEFAULT_MODEL | Some x \<Rightarrow> x) r) \<or>
         (\<exists>run. \<exists>ch \<in> set chunks.
            ev = ui_request (case kw ''model_name'' of None \<Rightarrow> DEFAULT_MODEL | Some x \<Rightarrow> x, run) M m ch)"
proof -
  let ?name = "case kw ''model_name'' of None \<Rightarrow> DEFAULT_MODEL | Some x \<Rightarrow> x"
  show ?thesis
  proof (cases "pl ?name")
    case (Inl e)
    with assms show ?thesis
      by (simp add: summarize_chunks_def get_summarizer_def Let_def)
  next
    case (Inr run)
    with assms have
      "ev \<in> set (fst (summarize_loop (?name, run) M m chunks [RequestCapability ?name None] []))"
      by (simp add: summarize_chunks_def get_summarizer_def Let_def)
    from summarize_loop_events [OF this] show ?thesis by auto
  qed
qed

text \<open>
  What both programs do when the capability loads and every chunk is summarized.
\<close>

lemma ui_ok:
  assumes ch: "chunk_text text n = Inr chunks"
    and pl: "pl DEFAULT_MODEL = Inr run"
    and ok: "map (\<lambda>ch. run ch (guard_ml 160 ch) (guard_mn 60 (guard_ml 160 ch))) chunks = map Inr sums"
    and ne: "chunks \<noteq> []"
  shows "summarize_pdf_text pl text n final_pass =
           (if final_pass \<and> 1 < length sums then
              (RequestCapability DEFAULT_MODEL None # map (ui_request (DEFAULT_MODEL, run) 160 60) chunks @
                 [RequestCapability DEFAULT_MODEL None,
                  Invoke DEFAULT_MODEL (str_join sp sums) 220 90 (run (str_join sp sums) 220 90)],
               case run (str_join sp sums) 220 90 of
                 Inl e \<Rightarrow> Inl e
               | Inr final \<Rightarrow> Inr (final, sums))
            else
              (RequestCapability DEFAULT_MODEL None # map (ui_request (DEFAULT_MODEL, run) 160 60) chunks,
               Inr (hd sums, sums)))"
proof -
  from ok ne have sne: "sums \<noteq> []" by auto
  note nb = chunks_text_not_blank [OF ch ne]
  have sc: "summarize_chunks pl chunks 160 60 Map.empty =
           (RequestCapability DEFAULT_MODEL None # map (ui_request (DEFAULT_MODEL, run) 160 60) chunks,
            Inr sums)"
    using pl ok by (rule summarize_chunks_ok)
  show ?thesis
    using sne ne
    by (cases sums)
       (auto simp: summarize_pdf_text_def nb ch sc Let_def get_summarizer_def pl
          split: sum.splits)
qed

lemma cli_ok:
  assumes ch: "chunk_text_cli text n = Inr chunks"
    and pl: "pl model = Inr run"
    and ok: "map (\<lambda>ch. run ch 160 60) chunks = map Inr sums"
    and ne: "text \<noteq> []"
  shows "main pl text model n final_pass =
           (if final_pass \<and> 1 < length sums then
              (RequestCapability model None # map (cli_request (model, run)) chunks @
                 [Invoke model (str_join sp sums) 220 90 (run (str_join sp sums) 220 90)],
               case run (str_join sp sums) 220 90 of
                 Inl e \<Rightarrow> Inl e
               | Inr final \<Rightarrow> Inr (FinalSummary final))
            else
              (RequestCapability model None # map (cli_request (model, run)) chunks,
               Inr (FinalSummary (str_join sp sums))))"
  using main_loop_ok [of "(model, run)" chunks sums "[RequestCapability model None]" "[]"] ok
  by (auto simp: main_def ne ch pl Let_def split: sum.splits)

text \<open>
  Every run either makes no call that raises, or ends with the first call that raises
  and with its exception.
\<close>

lemma summarize_pdf_text_outcome:
  assumes "summarize_pdf_text pl text n fp = (log, r)"
  shows "clean log \<or> (\<exists>e. r = Inl e \<and> stopped log e)"
proof (cases "text = [] \<or> str_strip text = []")
  case True
  with assms show ?thesis by (auto simp: summarize_pdf_text_def)
next
  case nb: False
  show ?thesis
  proof (cases "chunk_text text n")
    case (Inl e)
    with assms nb show ?thesis by (auto simp: summarize_pdf_text_def)
  next
    case (Inr chunks)
    show ?thesis
    proof (cases "chunks = []")
      case True
      with assms nb Inr show ?thesis by (auto simp: summarize_pdf_text_def)
    next
      case ne: False
      obtain log1 r1 where sc: "summarize_chunks pl chunks 160 60 Map.empty = (log1, r1)"
        by (cases "summarize_chunks pl chunks 160 60 Map.empty")
      note o1 = summarize_chunks_outcome [OF sc]
      show ?thesis
      proof (cases r1)
        case (Inl e)
        with assms nb Inr ne sc o1 show ?thesis by (auto simp: summarize_pdf_text_def)
      next
        case sums: (Inr sums)
        with o1 have c1: "clean log1" by simp
        show ?thesis
        proof (cases "fp \<and> 1 < length sums")
          case False
          with assms nb Inr ne sc sums c1 show ?thesis
            by (auto simp: summarize_pdf_text_def split: list.splits)
        next
          case True
          show ?thesis
          proof (cases "pl DEFAULT_MODEL")
            case (Inl e)
            with assms nb Inr ne sc sums True
            have "log = log1 @ [RequestCapability DEFAULT_MODEL (Some e)]" and "r = Inl e"
              by (auto simp: summarize_pdf_text_def get_summarizer_def)
            with c1 show ?thesis by (simp add: stopped_snoc raised_def)
          next
            case run: (Inr run)
            let ?out = "run (str_join sp sums) 220 90"
            from assms nb Inr ne sc sums True run
            have log: "log = (log1 @ [RequestCapability DEFAULT_MODEL None]) @
                         [Invoke DEFAULT_MODEL (str_join sp sums) 220 90 ?out]"
              and r: "r = (case ?out of Inl e \<Rightarrow> Inl e | Inr f \<Rightarrow> Inr (f, sums))"
              by (auto simp: summarize_pdf_text_def get_summarizer_def Let_def split: sum.splits)
            have c2: "clean (log1 @ [RequestCapability DEFAULT_MODEL None])"
              using c1 by (simp add: clean_def raised_def)
            show ?thesis
            proof (cases ?out)
              case (Inl e)
              then have "raised (Invoke DEFAULT_MODEL (str_join sp sums) 220 90 ?out) = Some e"
                by (simp add: raised_def)
              from stopped_snoc [OF c2 this] Inl r show ?thesis
                unfolding log by simp
            next
              case (Inr f)
              then have "raised (Invoke DEFAULT_MODEL (str_join sp sums) 220 90 ?out) = None"
                by (simp add: raised_def)
              with c2 have "clean log" unfolding log by (simp add: clean_def)
              then show ?thesis ..
            qed
          qed
        qed
      qed
    qed
  qed
qed

lemma main_outcome:
  assumes "main pl text model n fp = (log, r)"
  shows "clean log \<or> (\<exists>e. r = Inl e \<and> stopped log e)"
proof (cases "text = []")
  case True
  with assms show ?thesis by (auto simp: main_def)
next
  case nb: False
  show ?thesis
  proof (cases "chunk_text_cli text n")
    case (Inl e)
    with assms nb show ?thesis by (auto simp: main_def)
  next
    case (Inr chunks)
    show ?thesis
    proof (cases "pl model")
      case (Inl e)
      with assms nb Inr have "log = [] @ [RequestCapability model (Some e)]" and "r = Inl e"
        by (auto simp: main_def)
      then show ?thesis by (simp add: stopped_def raised_def)
    next
      case run: (Inr run)
      obtain log1 r1 where
        ml: "main_loop (model, run) chunks [RequestCapability model None] [] = (log1, r1)"
        by (cases "main_loop (model, run) chunks [RequestCapability model None] []")
      have "clean [RequestCapability model None]"
        by (simp add: clean_def raised_def)
      note o1 = main_loop_outcome [OF this ml]
      show ?thesis
      proof (cases r1)
        case (Inl e)
        with assms nb Inr run ml o1 show ?thesis by (auto simp: main_def)
      next
        case sums: (Inr sums)
        with o1 have c1: "clean log1" by simp
        show ?thesis
        proof (cases "fp \<and> 1 < length sums")
          case False
          with assms nb Inr run ml sums c1 show ?thesis
            by (auto simp: main_def)
        next
          case True
          let ?out = "run (str_join sp sums) 220 90"
          from assms nb Inr run ml sums True
          have log: "log = log1 @ [Invoke model (str_join sp sums) 220 90 ?out]"
            and r: "r = (case ?out of Inl e \<Rightarrow> Inl e | Inr f \<Rightarrow> Inr (FinalSummary f))"
            by (auto simp: main_def Let_def split: sum.splits)
          show ?thesis
          proof (cases ?out)
            case (Inl e)
            then have "raised (Invoke model (str_join sp sums) 220 90 ?out) = Some e"
              by (simp add: raised_def)
            from stopped_snoc [OF c1 this] Inl r show ?thesis
              unfolding log by simp
          next
            case (Inr f)
            then have "raised (Invoke model (str_join sp sums) 220 90 ?out) = None"
              by (simp add: raised_def)
            with c1 have "clean log" unfolding log by (simp add: clean_def)
            then show ?thesis ..
          qed
        qed
      qed
    qed
  qed
qed

lemma outcome_fail_fast:
  assumes "clean log \<or> (\<exists>e. r = Inl e \<and> stopped log e)"
    and "i < length log" and "raised (log ! i) = Some e"
  shows "Suc i = length log \<and> r = Inl e"
proof -
  from assms(2,3) have "\<not> clean log"
    using clean_no_raise by blast
  with assms(1) obtain e' where r: "r = Inl e'" and st: "stopped log e'" by blast
  from stopped_last [OF st assms(2,3)] r show ?thesis by simp
qed

text \<open>The stub capabilities on two small texts, computed.\<close>

lemma ex_stub_ui:
  "map (\<lambda>ch. stub_capability ch (guard_ml 160 ch) (guard_mn 60 (guard_ml 160 ch))) [[97], [98]]
     = map Inr [[97, 35], [98, 35]]"
  by (simp add: stub_capability_def)

lemma ex_stub_cli:
  "map (\<lambda>ch. stub_capability ch 160 60) [[97], [98]] = map Inr [[97, 35], [98, 35]]"
  by (simp add: stub_capability_def)

lemma ex_fail_ui:
  "fst (summarize_pdf_text failing_library [97, 32, 98, 32, 99] 1 True) =
     [RequestCapability DEFAULT_MODEL None,
      Invoke DEFAULT_MODEL [97] 64 48 (Inr [97, 35]),
      Invoke DEFAULT_MODEL [98] 64 48 (Inl (CapabilityFailure 1))]"
  by (simp add: summarize_pdf_text_def ex_chunks3 str_strip_def isspace_def
      summarize_chunks_def get_summarizer_def failing_library_def failing_capability_def
      guard_ml_def guard_mn_def str_split_nonspace)

section \<open>Properties of the summarizer\<close>

text \<open>
  Claim C3 (no final pass), as stated: whenever the final pass is not taken, the final
  summary is the first chunk summary, also when \<^verbatim>\<open>final_pass\<close> is false and there are
  several chunks. This fails for the command-line tool: on the text \<^verbatim>\<open>a b\<close> with one word
  per chunk and no final pass, the first chunk summary is \<^verbatim>\<open>a#\<close> and the tool prints the
  joined summaries \<^verbatim>\<open>a# b#\<close>.
\<close>

theorem final_without_pass_counterexample:
  "chunk_text_cli [97, 32, 98] 1 = Inr [[97], [98]] \<and>
   stub_capability [97] 160 60 = Inr [97, 35] \<and>
   snd (main stub_library [97, 32, 98] DEFAULT_MODEL 1 False)
     = Inr (FinalSummary [97, 35, 32, 98, 35]) \<and>
   snd (main stub_library [97, 32, 98] DEFAULT_MODEL 1 False) \<noteq> Inr (FinalSummary [97, 35])"
proof -
  have "main stub_library [97, 32, 98] DEFAULT_MODEL 1 False =
          ([RequestCapability DEFAULT_MODEL None,
            Invoke DEFAULT_MODEL [97] 160 60 (Inr [97, 35]),
            Invoke DEFAULT_MODEL [98] 160 60 (Inr [98, 35])],
           Inr (FinalSummary [97, 35, 32, 98, 35]))"
    by (simp add: main_def ex_chunks_cli stub_library_def stub_capability_def sp_def)
  then show ?thesis
    by (simp add: ex_chunks_cli stub_capability_def)
qed

text \<open>
  Claim C3, amended. Let every chunk be summarized without an exception, and let the
  final pass not be taken (\<^verbatim>\<open>final_pass\<close> is false, or there is one chunk only). Then
  \<^verbatim>\<open>summarize_pdf_text\<close> returns the first chunk summary as the final summary, together
  with all chunk summaries; the command-line tool prints the chunk summaries joined by
  single spaces, which is the chunk summary itself when there is one chunk only.
\<close>

theorem final_without_pass:
  "(chunk_text text n = Inr chunks \<and> pl DEFAULT_MODEL = Inr run \<and>
    map (\<lambda>ch. run ch (guard_ml 160 ch) (guard_mn 60 (guard_ml 160 ch))) chunks = map Inr (s # sums) \<and>
    \<not> (final_pass \<and> sums \<noteq> []) \<longrightarrow>
      snd (summarize_pdf_text pl text n final_pass) = Inr (s, s # sums)) \<and>
   (chunk_text_cli text n = Inr chunks' \<and> pl' model = Inr run' \<and>
    map (\<lambda>ch. run' ch 160 60) chunks' = map Inr (s' # sums') \<and>
    \<not> (final_pass' \<and> sums' \<noteq> []) \<longrightarrow>
      snd (main pl' text model n final_pass') = Inr (FinalSummary (str_join sp (s' # sums'))) \<and>
      (sums' = [] \<longrightarrow> snd (main pl' text model n final_pass') = Inr (FinalSummary s')))"
proof (intro conjI impI)
  assume a: "chunk_text text n = Inr chunks \<and> pl DEFAULT_MODEL = Inr run \<and>
    map (\<lambda>ch. run ch (guard_ml 160 ch) (guard_mn 60 (guard_ml 160 ch))) chunks = map Inr (s # sums) \<and>
    \<not> (final_pass \<and> sums \<noteq> [])"
  then have ne: "chunks \<noteq> []" by auto
  from a have np: "\<not> (final_pass \<and> 1 < length (s # sums))" by auto
  from a ne np have "summarize_pdf_text pl text n final_pass =
      (RequestCapability DEFAULT_MODEL None # map (ui_request (DEFAULT_MODEL, run) 160 60) chunks,
       Inr (hd (s # sums), s # sums))"
    by (subst ui_ok [where sums = "s # sums" and run = run and chunks = chunks]) simp_all
  then show "snd (summarize_pdf_text pl text n final_pass) = Inr (s, s # sums)" by simp
next
  assume a: "chunk_text_cli text n = Inr chunks' \<and> pl' model = Inr run' \<and>
    map (\<lambda>ch. run' ch 160 60) chunks' = map Inr (s' # sums') \<and>
    \<not> (final_pass' \<and> sums' \<noteq> [])"
  then have ne: "chunks' \<noteq> []" by auto
  from a have np: "\<not> (final_pass' \<and> 1 < length (s' # sums'))" by auto
  from a ne have tne: "text \<noteq> []" using chunks_cli_text_not_empty by blast
  from a tne np have m: "main pl' text model n final_pass' =
      (RequestCapability model None # map (cli_request (model, run')) chunks',
       Inr (FinalSummary (str_join sp (s' # sums'))))"
    by (subst cli_ok [where sums = "s' # sums'" and run = run' and chunks = chunks']) simp_all
  then show "snd (main pl' text model n final_pass') = Inr (FinalSummary (str_join sp (s' # sums')))"
    by simp
  assume "sums' = []"
  with m show "snd (main pl' text model n final_pass') = Inr (FinalSummary s')" by simp
qed

theorem final_without_pass_witness:
  "chunk_text [97, 32, 98] 1 = Inr [[97], [98]] \<and>
   chunk_text_cli [97, 32, 98] 1 = Inr [[97], [98]] \<and>
   stub_library DEFAULT_MODEL = Inr stub_capability \<and>
   map (\<lambda>ch. stub_capability ch (guard_ml 160 ch) (guard_mn 60 (guard_ml 160 ch))) [[97], [98]]
     = map Inr [[97, 35], [98, 35]] \<and>
   map (\<lambda>ch. stub_capability ch 160 60) [[97], [98]] = map Inr [[97, 35], [98, 35]] \<and>
   snd (summarize_pdf_text stub_library [97, 32, 98] 1 False) = Inr ([97, 35], [[97, 35], [98, 35]]) \<and>
   snd (main stub_library [97, 32, 98] DEFAULT_MODEL 1 False)
     = Inr (FinalSummary (str_join sp [[97, 35], [98, 35]]))"
proof -
  have l: "stub_library DEFAULT_MODEL = Inr stub_capability"
    by (simp add: stub_library_def)
  from final_without_pass
    [of "[97, 32, 98]" 1 "[[97], [98]]" stub_library stub_capability "[97, 35]" "[[98, 35]]" False
        "[[97], [98]]" stub_library DEFAULT_MODEL stub_capability "[97, 35]" "[[98, 35]]" False]
  show ?thesis
    using ex_chunks ex_chunks_cli ex_stub_ui ex_stub_cli l by simp
qed

text \<open>
  Claim C4 (final pass). Let every chunk be summarized without an exception. When
  \<^verbatim>\<open>final_pass\<close> is true and there is more than one chunk summary, the final summary is
  what the capability returns on the chunk summaries joined by single spaces, with
  \<^verbatim>\<open>max_length\<close> 220 and \<^verbatim>\<open>min_length\<close> 90, and the capability is invoked once for
  each chunk and exactly once more for this; otherwise it is invoked once for each chunk
  and no more. This holds for \<^verbatim>\<open>summarize_pdf_text\<close> and for the command-line tool.
\<close>

theorem final_pass_summary:
  "(chunk_text text n = Inr chunks \<and> pl DEFAULT_MODEL = Inr run \<and>
    map (\<lambda>ch. run ch (guard_ml 160 ch) (guard_mn 60 (guard_ml 160 ch))) chunks = map Inr sums \<longrightarrow>
      (if final_pass \<and> 1 < length sums then
         snd (summarize_pdf_text pl text n final_pass) =
           (case run (str_join sp sums) 220 90 of
              Inl e \<Rightarrow> Inl e
            | Inr final \<Rightarrow> Inr (final, sums)) \<and>
         filter is_invoke (fst (summarize_pdf_text pl text n final_pass)) =
           map (ui_request (DEFAULT_MODEL, run) 160 60) chunks @
           [Invoke DEFAULT_MODEL (str_join sp sums) 220 90 (run (str_join sp sums) 220 90)]
       else
         filter is_invoke (fst (summarize_pdf_text pl text n final_pass)) =
           map (ui_request (DEFAULT_MODEL, run) 160 60) chunks)) \<and>
   (chunk_text_cli text n = Inr chunks' \<and> pl' model = Inr run' \<and>
    map (\<lambda>ch. run' ch 160 60) chunks' = map Inr sums' \<longrightarrow>
      (if final_pass' \<and> 1 < length sums' then
         snd (main pl' text model n final_pass') =
           (case run' (str_join sp sums') 220 90 of
              Inl e \<Rightarrow> Inl e
            | Inr final \<Rightarrow> Inr (FinalSummary final)) \<and>
         filter is_invoke (fst (main pl' text model n final_pass')) =
           map (cli_request (model, run')) chunks' @
           [Invoke model (str_join sp sums') 220 90 (run' (str_join sp sums') 220 90)]
       else
         filter is_invoke (fst (main pl' text model n final_pass')) =
           map (cli_request (model, run')) chunks'))"
proof (intro conjI impI)
  assume a: "chunk_text text n = Inr chunks \<and> pl DEFAULT_MODEL = Inr run \<and>
    map (\<lambda>ch. run ch (guard_ml 160 ch) (guard_mn 60 (guard_ml 160 ch))) chunks = map Inr sums"
  show "if final_pass \<and> 1 < length sums then
         snd (summarize_pdf_text pl text n final_pass) =
           (case run (str_join sp sums) 220 90 of
              Inl e \<Rightarrow> Inl e
            | Inr final \<Rightarrow> Inr (final, sums)) \<and>
         filter is_invoke (fst (summarize_pdf_text pl text n final_pass)) =
           map (ui_request (DEFAULT_MODEL, run) 160 60) chunks @
           [Invoke DEFAULT_MODEL (str_join sp sums) 220 90 (run (str_join sp sums) 220 90)]
       else
         filter is_invoke (fst (summarize_pdf_text pl text n final_pass)) =
           map (ui_request (DEFAULT_MODEL, run) 160 60) chunks"
  proof (cases "chunks = []")
    case True
    with a have "sums = []" by auto
    with a True show ?thesis
      by (auto simp: summarize_pdf_text_def)
  next
    case False
    with a have eq: "summarize_pdf_text pl text n final_pass =
           (if final_pass \<and> 1 < length sums then
              (RequestCapability DEFAULT_MODEL None # map (ui_request (DEFAULT_MODEL, run) 160 60) chunks @
                 [RequestCapability DEFAULT_MODEL None,
                  Invoke DEFAULT_MODEL (str_join sp sums) 220 90 (run (str_join sp sums) 220 90)],
               case run (str_join sp sums) 220 90 of
                 Inl e \<Rightarrow> Inl e
               | Inr final \<Rightarrow> Inr (final, sums))
            else
              (RequestCapability DEFAULT_MODEL None # map (ui_request (DEFAULT_MODEL, run) 160 60) chunks,
               Inr (hd sums, sums)))"
      by (intro ui_ok) simp_all
    show ?thesis unfolding eq by (simp add: is_invoke_def)
  qed
next
  assume a: "chunk_text_cli text n = Inr chunks' \<and> pl' model = Inr run' \<and>
    map (\<lambda>ch. run' ch 160 60) chunks' = map Inr sums'"
  show "if final_pass' \<and> 1 < length sums' then
         snd (main pl' text model n final_pass') =
           (case run' (str_join sp sums') 220 90 of
              Inl e \<Rightarrow> Inl e
            | Inr final \<Rightarrow> Inr (FinalSummary final)) \<and>
         filter is_invoke (fst (main pl' text model n final_pass')) =
           map (cli_request (model, run')) chunks' @
           [Invoke model (str_join sp sums') 220 90 (run' (str_join sp sums') 220 90)]
       else
         filter is_invoke (fst (main pl' text model n final_pass')) =
           map (cli_request (model, run')) chunks'"
  proof (cases "text = []")
    case True
    with a have c: "chunks' = []"
      using chunk_text_cli_blank [of "text" n chunks'] by simp
    with a have "sums' = []" by auto
    with True c show ?thesis by (simp add: main_def)
  next
    case False
    with a have eq: "main pl' text model n final_pass' =
           (if final_pass' \<and> 1 < length sums' then
              (RequestCapability model None # map (cli_request (model, run')) chunks' @
                 [Invoke model (str_join sp sums') 220 90 (run' (str_join sp sums') 220 90)],
               case run' (str_join sp sums') 220 90 of
                 Inl e \<Rightarrow> Inl e
               | Inr final \<Rightarrow> Inr (FinalSummary final))
            else
              (RequestCapability model None # map (cli_request (model, run')) chunks',
               Inr (FinalSummary (str_join sp sums'))))"
      by (intro cli_ok) simp_all
    show ?thesis unfolding eq by (simp add: is_invoke_def)
  qed
qed

theorem final_pass_summary_witness:
  "chunk_text [97, 32, 98] 1 = Inr [[97], [98]] \<and>
   chunk_text_cli [97, 32, 98] 1 = Inr [[97], [98]] \<and>
   stub_library DEFAULT_MODEL = Inr stub_capability \<and>
   map (\<lambda>ch. stub_capability ch (guard_ml 160 ch) (guard_mn 60 (guard_ml 160 ch))) [[97], [98]]
     = map Inr [[97, 35], [98, 35]] \<and>
   map (\<lambda>ch. stub_capability ch 160 60) [[97], [98]] = map Inr [[97, 35], [98, 35]] \<and>
   snd (summarize_pdf_text stub_library [97, 32, 98] 1 True)
     = Inr ([97, 35, 32, 98, 35, 35], [[97, 35], [98, 35]]) \<and>
   snd (main stub_library [97, 32, 98] DEFAULT_MODEL 1 True)
     = Inr (FinalSummary [97, 35, 32, 98, 35, 35]) \<and>
   length (filter is_invoke (fst (summarize_pdf_text stub_library [97, 32, 98] 1 True))) = 3 \<and>
   length (filter is_invoke (fst (summarize_pdf_text stub_library [97, 32, 98] 1 False))) = 2 \<and>
   length (filter is_invoke (fst (main stub_library [97, 32, 98] DEFAULT_MODEL 1 True))) = 3 \<and>
   length (filter is_invoke (fst (main stub_library [97, 32, 98] DEFAULT_MODEL 1 False))) = 2"
proof -
  have l: "stub_library DEFAULT_MODEL = Inr stub_capability"
    by (simp add: stub_library_def)
  have j: "stub_capability (str_join sp [[97, 35], [98, 35]]) 220 90 = Inr [97, 35, 32, 98, 35, 35]"
    by (simp add: stub_capability_def sp_def)
  from final_pass_summary
    [of "[97, 32, 98]" 1 "[[97], [98]]" stub_library stub_capability "[[97, 35], [98, 35]]" True
        "[[97], [98]]" stub_library DEFAULT_MODEL stub_capability "[[97, 35], [98, 35]]" True]
    final_pass_summary
    [of "[97, 32, 98]" 1 "[[97], [98]]" stub_library stub_capability "[[97, 35], [98, 35]]" False
        "[[97], [98]]" stub_library DEFAULT_MODEL stub_capability "[[97, 35], [98, 35]]" False]
  show ?thesis
    using ex_chunks ex_chunks_cli ex_stub_ui ex_stub_cli l j by simp
qed

text \<open>
  Claim C5 (adaptive bounds), as stated: for every configured \<^verbatim>\<open>max_length\<close> the
  per-chunk request has \<^verbatim>\<open>ml <= max_length\<close>. This fails when the configured
  \<^verbatim>\<open>max_length\<close> is below the floor 32: with \<^verbatim>\<open>max_length = 10\<close> the request has
  \<^verbatim>\<open>ml = 32\<close>.
\<close>

theorem guardrail_bounds_counterexample:
  "fst (summarize_chunks stub_library [[97]] 10 60 Map.empty) =
     [RequestCapability DEFAULT_MODEL None, Invoke DEFAULT_MODEL [97] 32 16 (Inr [97, 35])] \<and>
   \<not> (32 \<le> (10::int))"
  by (simp add: summarize_chunks_def get_summarizer_def stub_library_def stub_capability_def
      guard_ml_def guard_mn_def str_split_nonspace isspace_def)

text \<open>
  Claim C5, amended. Every invocation that \<^verbatim>\<open>summarize_chunks\<close> makes is for one of the
  chunks, with \<^verbatim>\<open>ml = max(32, min(max_length, max(64, w // 2)))\<close> for the number \<open>w\<close> of
  words of the chunk and \<^verbatim>\<open>mn = max(16, min(min_length, ml - 16))\<close>; these satisfy
  \<^verbatim>\<open>16 <= mn < ml\<close>, \<^verbatim>\<open>32 <= ml\<close> and \<^verbatim>\<open>ml <= max(32, max_length)\<close>, so
  \<^verbatim>\<open>ml <= max_length\<close> whenever the configured \<^verbatim>\<open>max_length\<close> is at least 32.
\<close>

theorem guardrail_bounds:
  assumes "Invoke name ch ml mn out \<in> set (fst (summarize_chunks pl chunks max_length min_length kwargs))"
  shows "ch \<in> set chunks \<and>
         ml = max 32 (min max_length (max 64 (int (length (str_split ch)) div 2))) \<and>
         mn = max 16 (min min_length (ml - 16)) \<and>
         16 \<le> mn \<and> mn < ml \<and> 32 \<le> ml \<and> ml \<le> max 32 max_length \<and>
         (32 \<le> max_length \<longrightarrow> ml \<le> max_length)"
proof -
  from summarize_chunks_events [OF assms]
  have ch: "ch \<in> set chunks" and ml: "ml = guard_ml max_length ch" and mn: "mn = guard_mn min_length ml"
    by (auto simp: ui_request_def)
  have ml': "ml = max 32 (min max_length (max 64 (int (length (str_split ch)) div 2)))"
    using ml by (simp only: guard_ml_def)
  have mn': "mn = max 16 (min min_length (ml - 16))"
    using mn by (simp only: guard_mn_def)
  have b1: "32 \<le> ml" unfolding ml' by (rule max.cobounded1)
  have b2: "16 \<le> mn" unfolding mn' by (rule max.cobounded1)
  have b3: "mn < ml" using b1 mn' by arith
  have b4: "ml \<le> max 32 max_length" using ml' by arith
  have b5: "32 \<le> max_length \<longrightarrow> ml \<le> max_length" using b4 by arith
  from ch ml' mn' b1 b2 b3 b4 b5 show ?thesis by blast
qed

theorem guardrail_bounds_witness:
  "Invoke DEFAULT_MODEL [97] 64 48 (Inr [97, 35])
     \<in> set (fst (summarize_chunks stub_library [[97]] 160 60 Map.empty)) \<and>
   (64::int) = max 32 (min 160 (max 64 (int (length (str_split [97])) div 2))) \<and>
   (48::int) = max 16 (min 60 (64 - 16)) \<and>
   (16::int) \<le> 48 \<and> (48::int) < 64 \<and> (32::int) \<le> 64 \<and> (64::int) \<le> max 32 160"
proof -
  have h: "Invoke DEFAULT_MODEL [97] 64 48 (Inr [97, 35])
             \<in> set (fst (summarize_chunks stub_library [[97]] 160 60 Map.empty))"
    by (simp add: summarize_chunks_def get_summarizer_def stub_library_def stub_capability_def
        guard_ml_def guard_mn_def str_split_nonspace isspace_def)
  from guardrail_bounds [OF h] h show ?thesis by simp
qed

text \<open>
  Claim C6 (empty input). For every text that is empty or consists of whitespace only,
  \<^verbatim>\<open>summarize_pdf_text\<close> returns the pair of the empty string and the empty list; it
  raises nothing, requests no capability and invokes none.
\<close>

theorem empty_input_sentinel:
  assumes "\<forall>c \<in> set text. isspace c"
  shows "summarize_pdf_text pl text n final_pass = ([], Inr ([], []))"
  using assms by (simp add: summarize_pdf_text_def str_strip_eq_Nil)

theorem empty_input_sentinel_witness:
  "isspace 32 \<and> isspace 10 \<and> isspace 9 \<and>
   summarize_pdf_text failing_library [32, 10, 9] 500 True = ([], Inr ([], [])) \<and>
   summarize_pdf_text failing_library [] 0 True = ([], Inr ([], []))"
proof -
  have s: "isspace 32 \<and> isspace 10 \<and> isspace 9" by (simp add: isspace_def)
  then have h: "\<forall>c \<in> set [32, 10, 9]. isspace c" by simp
  have e: "\<forall>c \<in> set ([]::pystr). isspace c" by simp
  from empty_input_sentinel [OF h] empty_input_sentinel [OF e] s show ?thesis by blast
qed

text \<open>
  In every run, a call that raised is the last call of the log, and its exception is the
  result of the run.
\<close>

lemma raising_call_is_last:
  "(i < length (fst (summarize_pdf_text pl text n fp)) \<and>
      raised (fst (summarize_pdf_text pl text n fp) ! i) = Some e \<longrightarrow>
    Suc i = length (fst (summarize_pdf_text pl text n fp)) \<and>
      snd (summarize_pdf_text pl text n fp) = Inl e) \<and>
   (j < length (fst (main pl text model n fp)) \<and>
      raised (fst (main pl text model n fp) ! j) = Some e' \<longrightarrow>
    Suc j = length (fst (main pl text model n fp)) \<and>
      snd (main pl text model n fp) = Inl e')"
proof -
  have "clean (fst (summarize_pdf_text pl text n fp)) \<or>
        (\<exists>e. snd (summarize_pdf_text pl text n fp) = Inl e \<and>
             stopped (fst (summarize_pdf_text pl text n fp)) e)"
    by (rule summarize_pdf_text_outcome) simp
  moreover have "clean (fst (main pl text model n fp)) \<or>
        (\<exists>e. snd (main pl text model n fp) = Inl e \<and> stopped (fst (main pl text model n fp)) e)"
    by (rule main_outcome) simp
  ultimately show ?thesis
    using outcome_fail_fast by blast
qed

text \<open>
  The runs in which the capability raises, from the side of the input: for the first
  chunk on which it raises, for any chunk on which it raises, and for the final pass.
\<close>

lemma summarize_loop_fail:
  "map (\<lambda>c. snd s c (guard_ml M c) (guard_mn m (guard_ml M c))) pre = map Inr sums \<Longrightarrow>
   snd s ch (guard_ml M ch) (guard_mn m (guard_ml M ch)) = Inl e \<Longrightarrow>
   summarize_loop s M m (pre @ ch # post) log acc = (log @ map (ui_request s M m) (pre @ [ch]), Inl e)"
proof (induction pre arbitrary: log acc sums)
  case Nil
  then show ?case by (simp add: Let_def ui_request_def)
next
  case (Cons p pre)
  from Cons.prems(1) obtain x xs where sums: "sums = x # xs"
    and x: "snd s p (guard_ml M p) (guard_mn m (guard_ml M p)) = Inr x"
    and xs: "map (\<lambda>c. snd s c (guard_ml M c) (guard_mn m (guard_ml M c))) pre = map Inr xs"
    by (cases sums) auto
  show ?case
    by (simp add: Let_def x Cons.IH [OF xs Cons.prems(2)] ui_request_def)
qed

lemma main_loop_fail:
  "map (\<lambda>c. snd s c 160 60) pre = map Inr sums \<Longrightarrow>
   snd s ch 160 60 = Inl e \<Longrightarrow>
   main_loop s (pre @ ch # post) log acc = (log @ map (cli_request s) (pre @ [ch]), Inl e)"
proof (induction pre arbitrary: log acc sums)
  case Nil
  then show ?case by (simp add: Let_def cli_request_def)
next
  case (Cons p pre)
  from Cons.prems(1) obtain x xs where sums: "sums = x # xs"
    and x: "snd s p 160 60 = Inr x"
    and xs: "map (\<lambda>c. snd s c 160 60) pre = map Inr xs"
    by (cases sums) auto
  show ?case
    by (simp add: Let_def x Cons.IH [OF xs Cons.prems(2)] cli_request_def)
qed

lemma summarize_loop_any_fail:
  "c \<in> set chs \<Longrightarrow> snd s c (guard_ml M c) (guard_mn m (guard_ml M c)) = Inl e \<Longrightarrow>
   \<exists>e'. snd (summarize_loop s M m chs log acc) = Inl e'"
proof (induction chs arbitrary: log acc)
  case Nil
  then show ?case by simp
next
  case (Cons ch chs)
  show ?case
  proof (cases "snd s ch (guard_ml M ch) (guard_mn m (guard_ml M ch))")
    case (Inl e0)
    then show ?thesis by (simp add: Let_def)
  next
    case (Inr x)
    with Cons.prems have "c \<in> set chs" by auto
    from Cons.IH [OF this Cons.prems(2)] Inr show ?thesis by (simp add: Let_def)
  qed
qed

lemma main_loop_any_fail:
  "c \<in> set chs \<Longrightarrow> snd s c 160 60 = Inl e \<Longrightarrow>
   \<exists>e'. snd (main_loop s chs log acc) = Inl e'"
proof (induction chs arbitrary: log acc)
  case Nil
  then show ?case by simp
next
  case (Cons ch chs)
  show ?case
  proof (cases "snd s ch 160 60")
    case (Inl e0)
    then show ?thesis by (simp add: Let_def)
  next
    case (Inr x)
    with Cons.prems have "c \<in> set chs" by auto
    from Cons.IH [OF this Cons.prems(2)] Inr show ?thesis by (simp add: Let_def)
  qed
qed

lemma ui_fail:
  assumes ch: "chunk_text text n = Inr (pre @ ch # post)"
    and pl: "pl DEFAULT_MODEL = Inr run"
    and ok: "map (\<lambda>c. run c (guard_ml 160 c) (guard_mn 60 (guard_ml 160 c))) pre = map Inr sums"
    and bad: "run ch (guard_ml 160 ch) (guard_mn 60 (guard_ml 160 ch)) = Inl e"
  shows "summarize_pdf_text pl text n final_pass =
           (RequestCapability DEFAULT_MODEL None #
              map (ui_request (DEFAULT_MODEL, run) 160 60) (pre @ [ch]), Inl e)"
proof -
  have ne: "pre @ ch # post \<noteq> []" by simp
  note nb = chunks_text_not_blank [OF ch ne]
  have "summarize_loop (DEFAULT_MODEL, run) 160 60 (pre @ ch # post)
          [RequestCapability DEFAULT_MODEL None] [] =
        ([RequestCapability DEFAULT_MODEL None] @
           map (ui_request (DEFAULT_MODEL, run) 160 60) (pre @ [ch]), Inl e)"
    using ok bad by (intro summarize_loop_fail [where sums = sums]) simp_all
  then have "summarize_chunks pl (pre @ ch # post) 160 60 Map.empty =
        (RequestCapability DEFAULT_MODEL None #
           map (ui_request (DEFAULT_MODEL, run) 160 60) (pre @ [ch]), Inl e)"
    by (simp add: summarize_chunks_def get_summarizer_def pl)
  then show ?thesis
    using nb by (simp add: summarize_pdf_text_def ch)
qed

lemma cli_fail:
  assumes ch: "chunk_text_cli text n = Inr (pre @ ch # post)"
    and pl: "pl model = Inr run"
    and ok: "map (\<lambda>c. run c 160 60) pre = map Inr sums"
    and bad: "run ch 160 60 = Inl e"
  shows "main pl text model n final_pass =
           (RequestCapability model None # map (cli_request (model, run)) (pre @ [ch]), Inl e)"
proof -
  have ne: "pre @ ch # post \<noteq> []" by simp
  note nb = chunks_cli_text_not_empty [OF ch ne]
  have "main_loop (model, run) (pre @ ch # post) [RequestCapability model None] [] =
        ([RequestCapability model None] @ map (cli_request (model, run)) (pre @ [ch]), Inl e)"
    using ok bad by (intro main_loop_fail [where sums = sums]) simp_all
  then show ?thesis
    using nb by (simp add: main_def ch pl)
qed

lemma ui_any_fail:
  assumes ch: "chunk_text text n = Inr chunks"
    and pl: "pl DEFAULT_MODEL = Inr run"
    and c: "c \<in> set chunks"
    and bad: "run c (guard_ml 160 c) (guard_mn 60 (guard_ml 160 c)) = Inl e"
  shows "\<exists>e'. snd (summarize_pdf_text pl text n final_pass) = Inl e'"
proof -
  from c have ne: "chunks \<noteq> []" by auto
  note nb = chunks_text_not_blank [OF ch ne]
  obtain log1 r1 where
    sl: "summarize_loop (DEFAULT_MODEL, run) 160 60 chunks [RequestCapability DEFAULT_MODEL None] []
           = (log1, r1)"
    by (cases "summarize_loop (DEFAULT_MODEL, run) 160 60 chunks [RequestCapability DEFAULT_MODEL None] []")
  from summarize_loop_any_fail [of c chunks "(DEFAULT_MODEL, run)" 160 60 e
      "[RequestCapability DEFAULT_MODEL None]" "[]"] c bad sl
  obtain e' where "r1 = Inl e'" by auto
  with sl have "summarize_chunks pl chunks 160 60 Map.empty = (log1, Inl e')"
    by (simp add: summarize_chunks_def get_summarizer_def pl)
  then show ?thesis
    using nb ne by (simp add: summarize_pdf_text_def ch)
qed

lemma cli_any_fail:
  assumes ch: "chunk_text_cli text n = Inr chunks"
    and pl: "pl model = Inr run"
    and c: "c \<in> set chunks"
    and bad: "run c 160 60 = Inl e"
  shows "\<exists>e'. snd (main pl text model n final_pass) = Inl e'"
proof -
  from c have ne: "chunks \<noteq> []" by auto
  note nb = chunks_cli_text_not_empty [OF ch ne]
  obtain log1 r1 where
    sl: "main_loop (model, run) chunks [RequestCapability model None] [] = (log1, r1)"
    by (cases "main_loop (model, run) chunks [RequestCapability model None] []")
  from main_loop_any_fail [of c chunks "(model, run)" e "[RequestCapability model None]" "[]"]
    c bad sl
  obtain e' where "r1 = Inl e'" by auto
  with sl show ?thesis
    using nb by (simp add: main_def ch pl)
qed

lemma ui_final_fail:
  assumes ch: "chunk_text text n = Inr chunks"
    and pl: "pl DEFAULT_MODEL = Inr run"
    and ok: "map (\<lambda>c. run c (guard_ml 160 c) (guard_mn 60 (guard_ml 160 c))) chunks = map Inr sums"
    and many: "1 < length sums"
    and bad: "run (str_join sp sums) 220 90 = Inl e"
  shows "summarize_pdf_text pl text n True =
           (RequestCapability DEFAULT_MODEL None # map (ui_request (DEFAULT_MODEL, run) 160 60) chunks @
              [RequestCapability DEFAULT_MODEL None,
               Invoke DEFAULT_MODEL (str_join sp sums) 220 90 (Inl e)], Inl e)"
proof -
  from ok many have ne: "chunks \<noteq> []" by auto
  have "summarize_pdf_text pl text n True =
           (if True \<and> 1 < length sums then
              (RequestCapability DEFAULT_MODEL None # map (ui_request (DEFAULT_MODEL, run) 160 60) chunks @
                 [RequestCapability DEFAULT_MODEL None,
                  Invoke DEFAULT_MODEL (str_join sp sums) 220 90 (run (str_join sp sums) 220 90)],
               case run (str_join sp sums) 220 90 of
                 Inl e \<Rightarrow> Inl e
               | Inr final \<Rightarrow> Inr (final, sums))
            else
              (RequestCapability DEFAULT_MODEL None # map (ui_request (DEFAULT_MODEL, run) 160 60) chunks,
               Inr (hd sums, sums)))"
    using ch pl ok ne by (rule ui_ok)
  with many bad show ?thesis by simp
qed

lemma cli_final_fail:
  assumes ch: "chunk_text_cli text n = Inr chunks"
    and pl: "pl model = Inr run"
    and ok: "map (\<lambda>c. run c 160 60) chunks = map Inr sums"
    and many: "1 < length sums"
    and bad: "run (str_join sp sums) 220 90 = Inl e"
  shows "main pl text model n True =
           (RequestCapability model None # map (cli_request (model, run)) chunks @
              [Invoke model (str_join sp sums) 220 90 (Inl e)], Inl e)"
proof -
  from ok many have ne: "chunks \<noteq> []" by auto
  note nb = chunks_cli_text_not_empty [OF ch ne]
  have "main pl text model n True =
           (if True \<and> 1 < length sums then
              (RequestCapability model None # map (cli_request (model, run)) chunks @
                 [Invoke model (str_join sp sums) 220 90 (run (str_join sp sums) 220 90)],
               case run (str_join sp sums) 220 90 of
                 Inl e \<Rightarrow> Inl e
               | Inr final \<Rightarrow> Inr (FinalSummary final))
            else
              (RequestCapability model None # map (cli_request (model, run)) chunks,
               Inr (FinalSummary (str_join sp sums))))"
    using ch pl ok nb by (rule cli_ok)
  with many bad show ?thesis by simp
qed

text \<open>
  Claim C7 (capability failure). Whenever the capability raises for a chunk, the run
  fails. More precisely, when the chunks before a chunk are summarized and the
  capability raises \<open>e\<close> for that chunk, the run ends with \<open>e\<close> right after this
  invocation: the chunks behind it are not summarized, no final pass is made, and no
  list of chunk summaries is returned. When every chunk is summarized and the capability
  raises \<open>e\<close> in the final pass, the run ends with \<open>e\<close> and returns no chunk
  summaries either. This holds for \<^verbatim>\<open>summarize_pdf_text\<close> and for the command-line tool.
\<close>

theorem capability_failure_aborts:
  "(chunk_text text n = Inr (pre @ ch # post) \<and> pl DEFAULT_MODEL = Inr run \<and>
    map (\<lambda>c. run c (guard_ml 160 c) (guard_mn 60 (guard_ml 160 c))) pre = map Inr sums \<and>
    run ch (guard_ml 160 ch) (guard_mn 60 (guard_ml 160 ch)) = Inl e \<longrightarrow>
      summarize_pdf_text pl text n final_pass =
        (RequestCapability DEFAULT_MODEL None #
           map (ui_request (DEFAULT_MODEL, run) 160 60) (pre @ [ch]), Inl e)) \<and>
   (chunk_text_cli text n = Inr (pre @ ch # post) \<and> pl model = Inr run \<and>
    map (\<lambda>c. run c 160 60) pre = map Inr sums \<and> run ch 160 60 = Inl e \<longrightarrow>
      main pl text model n final_pass =
        (RequestCapability model None # map (cli_request (model, run)) (pre @ [ch]), Inl e)) \<and>
   (chunk_text text n = Inr chunks \<and> pl DEFAULT_MODEL = Inr run \<and> c \<in> set chunks \<and>
    run c (guard_ml 160 c) (guard_mn 60 (guard_ml 160 c)) = Inl e \<longrightarrow>
      (\<exists>e'. snd (summarize_pdf_text pl text n final_pass) = Inl e')) \<and>
   (chunk_text_cli text n = Inr chunks \<and> pl model = Inr run \<and> c \<in> set chunks \<and>
    run c 160 60 = Inl e \<longrightarrow>
      (\<exists>e'. snd (main pl text model n final_pass) = Inl e')) \<and>
   (chunk_text text' n' = Inr chunks' \<and> pl' DEFAULT_MODEL = Inr run' \<and>
    map (\<lambda>c. run' c (guard_ml 160 c) (guard_mn 60 (guard_ml 160 c))) chunks' = map Inr sums' \<and>
    1 < length sums' \<and> run' (str_join sp sums') 220 90 = Inl e' \<longrightarrow>
      summarize_pdf_text pl' text' n' True =
        (RequestCapability DEFAULT_MODEL None #
           map (ui_request (DEFAULT_MODEL, run') 160 60) chunks' @
           [RequestCapability DEFAULT_MODEL None,
            Invoke DEFAULT_MODEL (str_join sp sums') 220 90 (Inl e')], Inl e')) \<and>
   (chunk_text_cli text' n' = Inr chunks' \<and> pl' model' = Inr run' \<and>
    map (\<lambda>c. run' c 160 60) chunks' = map Inr sums' \<and>
    1 < length sums' \<and> run' (str_join sp sums') 220 90 = Inl e' \<longrightarrow>
      main pl' text' model' n' True =
        (RequestCapability model' None # map (cli_request (model', run')) chunks' @
           [Invoke model' (str_join sp sums') 220 90 (Inl e')], Inl e'))"
proof (intro conjI impI; elim conjE)
  assume "chunk_text text n = Inr (pre @ ch # post)" "pl DEFAULT_MODEL = Inr run"
    "map (\<lambda>c. run c (guard_ml 160 c) (guard_mn 60 (guard_ml 160 c))) pre = map Inr sums"
    "run ch (guard_ml 160 ch) (guard_mn 60 (guard_ml 160 ch)) = Inl e"
  then show "summarize_pdf_text pl text n final_pass =
        (RequestCapability DEFAULT_MODEL None #
           map (ui_request (DEFAULT_MODEL, run) 160 60) (pre @ [ch]), Inl e)"
    by (rule ui_fail)
next
  assume "chunk_text_cli text n = Inr (pre @ ch # post)" "pl model = Inr run"
    "map (\<lambda>c. run c 160 60) pre = map Inr sums" "run ch 160 60 = Inl e"
  then show "main pl text model n final_pass =
        (RequestCapability model None # map (cli_request (model, run)) (pre @ [ch]), Inl e)"
    by (rule cli_fail)
next
  assume "chunk_text text n = Inr chunks" "pl DEFAULT_MODEL = Inr run" "c \<in> set chunks"
    "run c (guard_ml 160 c) (guard_mn 60 (guard_ml 160 c)) = Inl e"
  then show "\<exists>e'. snd (summarize_pdf_text pl text n final_pass) = Inl e'"
    by (rule ui_any_fail)
next
  assume "chunk_text_cli text n = Inr chunks" "pl model = Inr run" "c \<in> set chunks"
    "run c 160 60 = Inl e"
  then show "\<exists>e'. snd (main pl text model n final_pass) = Inl e'"
    by (rule cli_any_fail)
next
  assume "chunk_text text' n' = Inr chunks'" "pl' DEFAULT_MODEL = Inr run'"
    "map (\<lambda>c. run' c (guard_ml 160 c) (guard_mn 60 (guard_ml 160 c))) chunks' = map Inr sums'"
    "1 < length sums'" "run' (str_join sp sums') 220 90 = Inl e'"
  then show "summarize_pdf_text pl' text' n' True =
        (RequestCapability DEFAULT_MODEL None #
           map (ui_request (DEFAULT_MODEL, run') 160 60) chunks' @
           [RequestCapability DEFAULT_MODEL None,
            Invoke DEFAULT_MODEL (str_join sp sums') 220 90 (Inl e')], Inl e')"
    by (rule ui_final_fail)
next
  assume "chunk_text_cli text' n' = Inr chunks'" "pl' model' = Inr run'"
    "map (\<lambda>c. run' c 160 60) chunks' = map Inr sums'"
    "1 < length sums'" "run' (str_join sp sums') 220 90 = Inl e'"
  then show "main pl' text' model' n' True =
        (RequestCapability model' None # map (cli_request (model', run')) chunks' @
           [Invoke model' (str_join sp sums') 220 90 (Inl e')], Inl e')"
    by (rule cli_final_fail)
qed

theorem capability_failure_aborts_witness:
  "chunk_text [97, 32, 98, 32, 99] 1 = Inr [[97], [98], [99]] \<and>
   chunk_text_cli [97, 32, 98, 32, 99] 1 = Inr [[97], [98], [99]] \<and>
   failing_capability [97] 64 48 = Inr [97, 35] \<and>
   failing_capability [98] 64 48 = Inl (CapabilityFailure 1) \<and>
   failing_capability [97] 160 60 = Inr [97, 35] \<and>
   failing_capability [98] 160 60 = Inl (CapabilityFailure 1) \<and>
   summarize_pdf_text failing_library [97, 32, 98, 32, 99] 1 True =
     ([RequestCapability DEFAULT_MODEL None,
       Invoke DEFAULT_MODEL [97] 64 48 (Inr [97, 35]),
       Invoke DEFAULT_MODEL [98] 64 48 (Inl (CapabilityFailure 1))],
      Inl (CapabilityFailure 1)) \<and>
   main failing_library [97, 32, 98, 32, 99] DEFAULT_MODEL 1 True =
     ([RequestCapability DEFAULT_MODEL None,
       Invoke DEFAULT_MODEL [97] 160 60 (Inr [97, 35]),
       Invoke DEFAULT_MODEL [98] 160 60 (Inl (CapabilityFailure 1))],
      Inl (CapabilityFailure 1)) \<and>
   chunk_text [97, 32, 98] 1 = Inr [[97], [98]] \<and>
   chunk_text_cli [97, 32, 98] 1 = Inr [[97], [98]] \<and>
   final_failing_capability [97, 35, 32, 98, 35] 220 90 = Inl (CapabilityFailure 2) \<and>
   summarize_pdf_text final_failing_library [97, 32, 98] 1 True =
     ([RequestCapability DEFAULT_MODEL None,
       Invoke DEFAULT_MODEL [97] 64 48 (Inr [97, 35]),
       Invoke DEFAULT_MODEL [98] 64 48 (Inr [98, 35]),
       RequestCapability DEFAULT_MODEL None,
       Invoke DEFAULT_MODEL [97, 35, 32, 98, 35] 220 90 (Inl (CapabilityFailure 2))],
      Inl (CapabilityFailure 2)) \<and>
   main final_failing_library [97, 32, 98] DEFAULT_MODEL 1 True =
     ([RequestCapability DEFAULT_MODEL None,
       Invoke DEFAULT_MODEL [97] 160 60 (Inr [97, 35]),
       Invoke DEFAULT_MODEL [98] 160 60 (Inr [98, 35]),
       Invoke DEFAULT_MODEL [97, 35, 32, 98, 35] 220 90 (Inl (CapabilityFailure 2))],
      Inl (CapabilityFailure 2))"
proof -
  have g: "guard_ml 160 [97] = 64" "guard_ml 160 [98] = 64" "guard_mn 60 64 = 48"
    by (simp_all add: guard_ml_def guard_mn_def str_split_nonspace isspace_def)
  have f: "failing_capability [97] 64 48 = Inr [97, 35]"
      "failing_capability [98] 64 48 = Inl (CapabilityFailure 1)"
      "failing_capability [97] 160 60 = Inr [97, 35]"
      "failing_capability [98] 160 60 = Inl (CapabilityFailure 1)"
    by (simp_all add: failing_capability_def)
  have ff: "final_failing_capability [97] 64 48 = Inr [97, 35]"
      "final_failing_capability [98] 64 48 = Inr [98, 35]"
      "final_failing_capability [97] 160 60 = Inr [97, 35]"
      "final_failing_capability [98] 160 60 = Inr [98, 35]"
      "final_failing_capability [97, 35, 32, 98, 35] 220 90 = Inl (CapabilityFailure 2)"
    by (simp_all add: final_failing_capability_def)
  have l: "failing_library DEFAULT_MODEL = Inr failing_capability"
      "final_failing_library DEFAULT_MODEL = Inr final_failing_capability"
    by (simp_all add: failing_library_def final_failing_library_def)
  from capability_failure_aborts
    [of "[97, 32, 98, 32, 99]" 1 "[[97]]" "[98]" "[[99]]" failing_library failing_capability
        "[[97, 35]]" "CapabilityFailure 1" True DEFAULT_MODEL "[[97], [98], [99]]" "[98]"
        "[97, 32, 98]" 1 "[[97], [98]]" final_failing_library final_failing_capability
        "[[97, 35], [98, 35]]" "CapabilityFailure 2" DEFAULT_MODEL]
  show ?thesis
    using ex_chunks3 ex_chunks3_cli ex_chunks ex_chunks_cli
    by (simp add: g f ff l sp_def ui_request_def cli_request_def)
qed

text \<open>
  Claim C10 (default model). Every call that \<^verbatim>\<open>summarize_pdf_text\<close> makes, be it a
  request for a capability or an invocation, for a chunk or for the final pass, is for
  the model \<^verbatim>\<open>facebook/bart-large-cnn\<close>; the function has no parameter for another
  model.
\<close>

theorem default_model_only:
  assumes "ev \<in> set (fst (summarize_pdf_text pl text n final_pass))"
  shows "event_model ev = DEFAULT_MODEL"
proof (cases "text = [] \<or> str_strip text = []")
  case True
  with assms show ?thesis by (auto simp: summarize_pdf_text_def)
next
  case nb: False
  show ?thesis
  proof (cases "chunk_text text n")
    case (Inl e)
    with assms nb show ?thesis by (auto simp: summarize_pdf_text_def)
  next
    case (Inr chunks)
    obtain log1 r1 where sc: "summarize_chunks pl chunks 160 60 Map.empty = (log1, r1)"
      by (cases "summarize_chunks pl chunks 160 60 Map.empty")
    have l1: "event_model x = DEFAULT_MODEL" if "x \<in> set log1" for x
    proof -
      from that sc have "x \<in> set (fst (summarize_chunks pl chunks 160 60 Map.empty))" by simp
      from summarize_chunks_events [OF this] show ?thesis
        by (auto simp: event_model_def ui_request_def)
    qed
    from assms nb Inr sc have "ev \<in> set log1 \<or> event_model ev = DEFAULT_MODEL"
      by (auto simp: summarize_pdf_text_def get_summarizer_def Let_def event_model_def
          split: if_splits sum.splits list.splits)
    with l1 show ?thesis by blast
  qed
qed

theorem default_model_only_witness:
  "Invoke DEFAULT_MODEL [98] 64 48 (Inl (CapabilityFailure 1))
     \<in> set (fst (summarize_pdf_text failing_library [97, 32, 98, 32, 99] 1 True)) \<and>
   event_model (Invoke DEFAULT_MODEL [98] 64 48 (Inl (CapabilityFailure 1))) = DEFAULT_MODEL"
proof -
  have h: "Invoke DEFAULT_MODEL [98] 64 48 (Inl (CapabilityFailure 1))
     \<in> set (fst (summarize_pdf_text failing_library [97, 32, 98, 32, 99] 1 True))"
    unfolding ex_fail_ui by simp
  from default_model_only [OF h] h show ?thesis by simp
qed

end
